theory Spec2Isabelle
  imports Complex_Main "HOL-Library.Product_Lexorder" "HOL-Library.List_Lexorder"
begin

section \<open>Errors\<close>

text \<open>
  The only exception the modelled code can raise is Python's \<open>IndexError\<close> (a list read or
  written out of range).  \<open>ConfigurationError\<close> is the rejection the specification speaks
  of for malformed configuration; no path of the source raises it.
\<close>

datatype error = IndexError | ConfigurationError

section \<open>Battery (src/agent/battery.py)\<close>

text \<open>Python's unbounded integers are \<^typ>\<open>int\<close>.\<close>

record Battery =
  capacity :: int
  current :: int
  drain_rate :: int
  charge_rate :: int
  total_consumed :: int
  charge_cycles :: int

text \<open>
  \<open>Battery.__init__(capacity=100, drain_rate=1, charge_rate=5)\<close>.  The constructor has no
  check and no \<open>raise\<close>: it returns normally for every argument.
\<close>

definition Battery_init :: "int \<Rightarrow> int \<Rightarrow> int \<Rightarrow> error + Battery" where
  "Battery_init cap dr cr =
     Inr \<lparr>capacity = cap, current = cap, drain_rate = dr, charge_rate = cr,
          total_consumed = 0, charge_cycles = 0\<rparr>"

text \<open>
  \<open>consume(amount=None)\<close>: the argument is \<open>None\<close> (the drain rate is used) or an explicit
  amount.  The result is the returned flag and the updated battery.
\<close>

definition consume :: "int option \<Rightarrow> Battery \<Rightarrow> bool \<times> Battery" where
  "consume amount b =
     (let a = (case amount of None \<Rightarrow> drain_rate b | Some v \<Rightarrow> v);
          b1 = b\<lparr>current := max 0 (current b - a)\<rparr>;
          b2 = b1\<lparr>total_consumed := total_consumed b1 + a\<rparr>
      in (current b2 > 0, b2))"

definition charge :: "Battery \<Rightarrow> Battery" where
  "charge b =
     (let old_level = current b;
          b1 = b\<lparr>current := min (capacity b) (current b + charge_rate b)\<rparr>
      in if old_level < capacity b1 \<and> current b1 = capacity b1
         then b1\<lparr>charge_cycles := charge_cycles b1 + 1\<rparr>
         else b1)"

definition needs_charging :: "int \<Rightarrow> Battery \<Rightarrow> bool" where
  "needs_charging threshold b = (current b \<le> threshold)"

definition is_empty :: "Battery \<Rightarrow> bool" where
  "is_empty b = (current b \<le> 0)"

subsection \<open>Sequences of battery calls\<close>

datatype battery_call = Consume "int option" | Charge

fun call :: "battery_call \<Rightarrow> Battery \<Rightarrow> Battery" where
  "call (Consume amount) b = snd (consume amount b)"
| "call Charge b = charge b"

text \<open>The battery after a sequence of calls, made from left to right.\<close>

fun calls :: "battery_call list \<Rightarrow> Battery \<Rightarrow> Battery" where
  "calls [] b = b"
| "calls (c # cs) b = calls cs (call c b)"

text \<open>The amount of energy a call asks to move: what it drains, or what it adds.\<close>

fun call_amount :: "Battery \<Rightarrow> battery_call \<Rightarrow> int" where
  "call_amount b (Consume None) = drain_rate b"
| "call_amount b (Consume (Some a)) = a"
| "call_amount b Charge = charge_rate b"

definition level_ok :: "Battery \<Rightarrow> bool" where
  "level_ok b = (0 \<le> current b \<and> current b \<le> capacity b)"


section \<open>Python lists\<close>

text \<open>
  \<open>xs[i]\<close> in Python: a negative index counts from the end, and an index out of range
  raises \<open>IndexError\<close>.  \<open>py_index\<close> is the position read or written.
\<close>

definition py_index :: "'a list \<Rightarrow> int \<Rightarrow> error + nat" where
  "py_index xs i =
     (if 0 \<le> i \<and> i < int (length xs) then Inr (nat i)
      else if - int (length xs) \<le> i \<and> i < 0 then Inr (nat (int (length xs) + i))
      else Inl IndexError)"

section \<open>Environment (src/environment/grid.py)\<close>

text \<open>Cells: 0 clean, 1 dirty, -1 obstacle, 2 charging station.  \<open>grid[y][x]\<close> is row \<open>y\<close>, column \<open>x\<close>.\<close>

type_synonym cell = "int \<times> int"

record Environment =
  size_env :: int
  grid :: "int list list"

text \<open>\<open>grid[y][x]\<close>\<close>

definition get_cell :: "int list list \<Rightarrow> int \<Rightarrow> int \<Rightarrow> error + int" where
  "get_cell g y x =
     (case py_index g y of
        Inl e \<Rightarrow> Inl e
      | Inr j \<Rightarrow>
          (case py_index (g ! j) x of
             Inl e \<Rightarrow> Inl e
           | Inr i \<Rightarrow> Inr (g ! j ! i)))"

text \<open>\<open>grid[y][x] = v\<close>; the rows are distinct list objects, so one row changes.\<close>

definition set_cell :: "int list list \<Rightarrow> int \<Rightarrow> int \<Rightarrow> int \<Rightarrow> error + int list list" where
  "set_cell g y x v =
     (case py_index g y of
        Inl e \<Rightarrow> Inl e
      | Inr j \<Rightarrow>
          (case py_index (g ! j) x of
             Inl e \<Rightarrow> Inl e
           | Inr i \<Rightarrow> Inr (g[j := (g ! j)[i := v]])))"

text \<open>
  \<open>Environment.__init__(size=5, dirt_prob=0.2)\<close>.  The draws of \<open>random.random()\<close> are an
  argument: \<open>rnd y x\<close> is the number drawn for row \<open>y\<close>, column \<open>x\<close>.  \<open>range(size)\<close> is
  empty for \<open>size \<le> 0\<close>.  The three assignments follow in the source's order, each raising
  \<open>IndexError\<close> where the grid is too small.
\<close>

definition Environment_init :: "int \<Rightarrow> rat \<Rightarrow> (nat \<Rightarrow> nat \<Rightarrow> rat) \<Rightarrow> error + Environment" where
  "Environment_init sz dirt_prob rnd =
     (let g0 = map (\<lambda>y. map (\<lambda>x. if rnd y x > dirt_prob then 0 else 1) [0..<nat sz]) [0..<nat sz]
      in case set_cell g0 0 0 0 of
           Inl e \<Rightarrow> Inl e
         | Inr g1 \<Rightarrow>
             (case set_cell g1 (sz - 1) (sz - 1) 2 of
                Inl e \<Rightarrow> Inl e
              | Inr g2 \<Rightarrow>
                  (case set_cell g2 2 2 (- 1) of
                     Inl e \<Rightarrow> Inl e
                   | Inr g3 \<Rightarrow> Inr \<lparr>size_env = sz, grid = g3\<rparr>)))"

text \<open>\<open>get_dirty_cells\<close>: rows outermost, appending \<open>(x, y)\<close>; the reads of a row-major scan.\<close>

fun scan_dirty :: "int list list \<Rightarrow> (int \<times> int) list \<Rightarrow> error + cell list" where
  "scan_dirty g [] = Inr []"
| "scan_dirty g ((y, x) # yxs) =
     (case get_cell g y x of
        Inl e \<Rightarrow> Inl e
      | Inr c \<Rightarrow>
          (case scan_dirty g yxs of
             Inl e \<Rightarrow> Inl e
           | Inr dirty \<Rightarrow> Inr (if c = 1 then (x, y) # dirty else dirty)))"

definition get_dirty_cells :: "Environment \<Rightarrow> error + cell list" where
  "get_dirty_cells e =
     scan_dirty (grid e) (List.product [0..size_env e - 1] [0..size_env e - 1])"

section \<open>Metrics (src/utils/metrics.py)\<close>

text \<open>An entry of \<open>decisions_made\<close>.\<close>

record decision =
  d_step :: int
  d_position :: cell
  d_action :: string
  d_battery :: int
  d_strategy :: string

text \<open>A value of \<open>strategies_tested\<close>.\<close>

record strategy_stats =
  st_steps :: int
  st_dirt_cleaned :: int
  st_efficiency :: int

text \<open>
  The recorder's state, without \<open>start_time\<close> (a clock reading) and \<open>path_efficiency\<close>
  (never written).  \<open>strategies_tested\<close> is a dictionary with three fixed keys, kept as an
  association list in the source's key order.
\<close>

record PerformanceMetrics =
  steps_taken :: int
  dirt_cleaned :: int
  cells_visited :: "cell set"
  battery_usage :: "int list"
  decisions_made :: "decision list"
  strategies_tested :: "(string \<times> strategy_stats) list"

definition PerformanceMetrics_init :: PerformanceMetrics where
  "PerformanceMetrics_init =
     \<lparr>steps_taken = 0, dirt_cleaned = 0, cells_visited = {}, battery_usage = [],
      decisions_made = [],
      strategies_tested =
        [(''random'', \<lparr>st_steps = 0, st_dirt_cleaned = 0, st_efficiency = 0\<rparr>),
         (''astar'', \<lparr>st_steps = 0, st_dirt_cleaned = 0, st_efficiency = 0\<rparr>),
         (''optimized'', \<lparr>st_steps = 0, st_dirt_cleaned = 0, st_efficiency = 0\<rparr>)]\<rparr>"

definition record_step :: "cell \<Rightarrow> int \<Rightarrow> string \<Rightarrow> string \<Rightarrow> PerformanceMetrics \<Rightarrow> PerformanceMetrics" where
  "record_step position battery_level action strat m =
     (let m1 = m\<lparr>steps_taken := steps_taken m + 1\<rparr>;
          m2 = m1\<lparr>cells_visited := insert position (cells_visited m1)\<rparr>;
          m3 = m2\<lparr>battery_usage := battery_usage m2 @ [battery_level]\<rparr>
      in m3\<lparr>decisions_made := decisions_made m3 @
             [\<lparr>d_step = steps_taken m3, d_position = position, d_action = action,
               d_battery = battery_level, d_strategy = strat\<rparr>]\<rparr>)"

definition record_cleaning :: "string \<Rightarrow> PerformanceMetrics \<Rightarrow> PerformanceMetrics" where
  "record_cleaning strat m =
     (let m1 = m\<lparr>dirt_cleaned := dirt_cleaned m + 1\<rparr>
      in if strat \<in> fst ` set (strategies_tested m1)
         then m1\<lparr>strategies_tested :=
                  map (\<lambda>(k, v). if k = strat then (k, v\<lparr>st_dirt_cleaned := st_dirt_cleaned v + 1\<rparr>)
                                 else (k, v))
                      (strategies_tested m1)\<rparr>
         else m1)"

section \<open>Agent (src/agent/vacuum.py)\<close>

text \<open>
  The agent's fields, \<open>self.x\<close> and \<open>self.y\<close> as \<open>pos_x\<close> and \<open>pos_y\<close>.  The agent is the only
  writer of the environment it refers to, so the environment is a field of its state.
  \<open>epsilon\<close> is a Python float; the model takes it as a rational.
\<close>

record VaccumCleaner =
  env :: Environment
  pos_x :: int
  pos_y :: int
  cleaned :: int
  epsilon :: rat
  battery :: Battery
  visited :: "cell set"
  path :: "cell list"
  strategy :: string
  metrics :: PerformanceMetrics
  charger_pos :: cell

definition VaccumCleaner_init :: "Environment \<Rightarrow> string \<Rightarrow> rat \<Rightarrow> error + VaccumCleaner" where
  "VaccumCleaner_init e strat eps =
     (case Battery_init 100 1 5 of
        Inl err \<Rightarrow> Inl err
      | Inr b \<Rightarrow>
          Inr \<lparr>env = e, pos_x = 0, pos_y = 0, cleaned = 0, epsilon = max 1 eps, battery = b,
               visited = {}, path = [], strategy = strat, metrics = PerformanceMetrics_init,
               charger_pos = (size_env e - 1, size_env e - 1)\<rparr>)"

definition clean :: "VaccumCleaner \<Rightarrow> error + VaccumCleaner" where
  "clean s =
     (case get_cell (grid (env s)) (pos_y s) (pos_x s) of
        Inl e \<Rightarrow> Inl e
      | Inr c \<Rightarrow>
          (if c = 1 then
             (case set_cell (grid (env s)) (pos_y s) (pos_x s) 0 of
                Inl e \<Rightarrow> Inl e
              | Inr g \<Rightarrow>
                  Inr (s\<lparr>env := (env s)\<lparr>grid := g\<rparr>,
                         cleaned := cleaned s + 1,
                         metrics := record_cleaning (strategy s) (metrics s),
                         visited := insert (pos_x s, pos_y s) (visited s)\<rparr>))
           else Inr (s\<lparr>visited := insert (pos_x s, pos_y s) (visited s)\<rparr>)))"

subsection \<open>Path search\<close>

definition heuristic :: "cell \<Rightarrow> cell \<Rightarrow> int" where
  "heuristic a b = \<bar>fst a - fst b\<bar> + \<bar>snd a - snd b\<bar>"

text \<open>
  An entry of the priority queue: \<open>(f, g, cell, path)\<close>.  Python compares the tuples
  lexicographically, the paths as lists, which is the order of the entries here.
  \<open>heappop\<close> returns the least entry; entries that compare equal are equal, so the queue
  is modelled by the list of its entries, whatever their arrangement in the heap.
\<close>

type_synonym entry = "rat \<times> int \<times> cell \<times> cell list"

definition entry_g :: "entry \<Rightarrow> int" where
  "entry_g e = fst (snd e)"

definition entry_cell :: "entry \<Rightarrow> cell" where
  "entry_cell e = fst (snd (snd e))"

definition entry_path :: "entry \<Rightarrow> cell list" where
  "entry_path e = snd (snd (snd e))"

definition heappush :: "entry list \<Rightarrow> entry \<Rightarrow> entry list" where
  "heappush h e = e # h"

definition directions :: "(int \<times> int) list" where
  "directions = [(0, 1), (0, - 1), (1, 0), (- 1, 0)]"

text \<open>
  The \<open>for dx, dy in ...\<close> loop of \<open>a_star\<close> over the remaining directions \<open>ds\<close>: \<open>vis\<close> is the
  visited set (the expanded cell already added), \<open>g\<close> and \<open>pth\<close> are the cost and path of the
  expanded cell \<open>(x, y)\<close>.
\<close>

fun push_neighbors ::
  "int \<Rightarrow> int list list \<Rightarrow> rat \<Rightarrow> cell \<Rightarrow> cell set \<Rightarrow> int \<Rightarrow> cell \<Rightarrow> cell list \<Rightarrow>
   (int \<times> int) list \<Rightarrow> entry list \<Rightarrow> error + entry list" where
  "push_neighbors sz gr eps goal vis g (x, y) pth [] open_set = Inr open_set"
| "push_neighbors sz gr eps goal vis g (x, y) pth ((dx, dy) # ds) open_set =
     (let nx = x + dx; ny = y + dy in
      if 0 \<le> nx \<and> nx < sz \<and> 0 \<le> ny \<and> ny < sz then
        (case get_cell gr ny nx of
           Inl e \<Rightarrow> Inl e
         | Inr c \<Rightarrow>
             if c \<noteq> - 1 \<and> (nx, ny) \<notin> vis then
               (let g_new = g + 1;
                    f_new = of_int g_new + eps * of_int (heuristic (nx, ny) goal)
                in push_neighbors sz gr eps goal vis g (x, y) pth ds
                     (heappush open_set (f_new, g_new, (nx, ny), pth @ [(nx, ny)])))
             else push_neighbors sz gr eps goal vis g (x, y) pth ds open_set)
      else push_neighbors sz gr eps goal vis g (x, y) pth ds open_set)"

text \<open>The cells the search can ever hold: those within the bounds and those queued.\<close>

definition in_bounds :: "int \<Rightarrow> cell set" where
  "in_bounds sz = {0..<sz} \<times> {0..<sz}"

definition frontier :: "int \<Rightarrow> entry list \<Rightarrow> cell set \<Rightarrow> cell set" where
  "frontier sz open_set vis = (in_bounds sz \<union> entry_cell ` set open_set) - vis"

text \<open>The \<open>while open_set\<close> loop of \<open>a_star\<close>.\<close>

function a_star_loop ::
  "int \<Rightarrow> int list list \<Rightarrow> rat \<Rightarrow> cell \<Rightarrow> entry list \<Rightarrow> cell set \<Rightarrow> error + cell list" where
  "a_star_loop sz gr eps goal open_set vis =
     (if open_set = [] then Inr []
      else
        (let e = min_list open_set;
             rest = remove1 e open_set
         in if entry_cell e = goal then Inr (tl (entry_path e))
            else if entry_cell e \<in> vis then a_star_loop sz gr eps goal rest vis
            else
              (case push_neighbors sz gr eps goal (insert (entry_cell e) vis) (entry_g e)
                      (entry_cell e) (entry_path e) directions rest of
                 Inl err \<Rightarrow> Inl err
               | Inr open2 \<Rightarrow> a_star_loop sz gr eps goal open2 (insert (entry_cell e) vis))))"
  by pat_completeness auto

lemma entry_cell_simp: "entry_cell (f, g, c, p) = c"
  by (simp add: entry_cell_def)

lemma in_bounds_iff: "(x, y) \<in> in_bounds sz \<longleftrightarrow> 0 \<le> x \<and> x < sz \<and> 0 \<le> y \<and> y < sz"
  by (auto simp: in_bounds_def)

lemma push_neighbors_cells:
  "push_neighbors sz gr eps goal vis g c pth ds open_set = Inr open2 \<Longrightarrow>
   entry_cell ` set open2 \<subseteq> in_bounds sz \<union> entry_cell ` set open_set"
proof (induction ds arbitrary: open_set)
  case Nil
  then show ?case by (cases c) auto
next
  case (Cons d ds)
  obtain x y dx dy where c: "c = (x, y)" and d: "d = (dx, dy)"
    by (cases c, cases d) blast
  consider
    (skip) "push_neighbors sz gr eps goal vis g c pth ds open_set = Inr open2"
  | (push) "(x + dx, y + dy) \<in> in_bounds sz" and
      "push_neighbors sz gr eps goal vis g c pth ds
         (heappush open_set
            (of_int (g + 1) + eps * of_int (heuristic (x + dx, y + dy) goal), g + 1,
             (x + dx, y + dy), pth @ [(x + dx, y + dy)])) = Inr open2"
    using Cons.prems unfolding c d
    by (simp add: Let_def in_bounds_iff split: if_splits sum.splits)
  then show ?case
  proof cases
    case skip
    then show ?thesis by (rule Cons.IH)
  next
    case push
    from Cons.IH [OF push(2)] push(1) show ?thesis
      by (auto simp: heappush_def entry_cell_simp)
  qed
qed

lemma min_list_in: "xs \<noteq> [] \<Longrightarrow> min_list xs \<in> set (xs :: 'a::linorder list)"
  by (simp add: min_list_Min)

lemma frontier_finite: "finite (frontier sz open_set vis)"
  by (simp add: frontier_def in_bounds_def)

termination a_star_loop
proof (relation "measures [\<lambda>(sz, gr, eps, goal, open_set, vis). card (frontier sz open_set vis),
                           \<lambda>(sz, gr, eps, goal, open_set, vis). length open_set]",
       goal_cases)
  case 1
  then show ?case by simp
next
  case (2 sz gr eps goal open_set vis e rest)
  have "min_list open_set \<in> set open_set"
    using 2 by (simp add: min_list_in)
  then have len: "length rest < length open_set"
    using 2 by (simp add: length_remove1)
  have "set rest \<subseteq> set open_set"
    using 2 by (simp add: set_remove1_subset)
  then have "frontier sz rest vis \<subseteq> frontier sz open_set vis"
    unfolding frontier_def by blast
  then have "card (frontier sz rest vis) \<le> card (frontier sz open_set vis)"
    by (simp add: card_mono frontier_finite)
  with len show ?case by auto
next
  case (3 sz gr eps goal open_set vis e rest open2)
  have m: "e \<in> set open_set"
    using 3 by (simp add: min_list_in)
  have "entry_cell ` set open2 \<subseteq> in_bounds sz \<union> entry_cell ` set rest"
    using 3 push_neighbors_cells by blast
  moreover have "set rest \<subseteq> set open_set"
    using 3 by (simp add: set_remove1_subset)
  ultimately have "frontier sz open2 (insert (entry_cell e) vis)
      \<subseteq> frontier sz open_set vis - {entry_cell e}"
    unfolding frontier_def by blast
  moreover have "entry_cell e \<in> frontier sz open_set vis"
    using 3 m by (auto simp: frontier_def)
  ultimately have "frontier sz open2 (insert (entry_cell e) vis) \<subset> frontier sz open_set vis"
    by blast
  then have "card (frontier sz open2 (insert (entry_cell e) vis)) < card (frontier sz open_set vis)"
    by (simp add: psubset_card_mono frontier_finite)
  then show ?case by simp
qed

definition a_star :: "VaccumCleaner \<Rightarrow> cell \<Rightarrow> cell \<Rightarrow> error + cell list" where
  "a_star s start goal =
     a_star_loop (size_env (env s)) (grid (env s)) (epsilon s) goal
       (heappush [] (of_int (0 + heuristic start goal), 0, start, [start])) {}"

declare a_star_loop.simps [simp del]

subsection \<open>Movement\<close>

text \<open>
  \<open>_random_step\<close>.  The draw of \<open>random.choice(directions)\<close> is an argument: \<open>k\<close> selects one of
  the four directions.
\<close>

definition random_step :: "nat \<Rightarrow> VaccumCleaner \<Rightarrow> error + VaccumCleaner" where
  "random_step k s =
     (let (dx, dy) = [(0, 1), (0, - 1), (1, 0), (- 1, 0)] ! (k mod 4);
          new_x = pos_x s + dx;
          new_y = pos_y s + dy
      in if 0 \<le> new_x \<and> new_x < size_env (env s) \<and> 0 \<le> new_y \<and> new_y < size_env (env s) then
           (case get_cell (grid (env s)) new_y new_x of
              Inl e \<Rightarrow> Inl e
            | Inr c \<Rightarrow>
                if c \<noteq> - 1
                then Inr (s\<lparr>pos_x := new_x, pos_y := new_y,
                            battery := snd (consume None (battery s))\<rparr>)
                else Inr s)
         else Inr s)"

text \<open>\<open>min(dirty_cells, key=...)\<close>: the first cell of least Manhattan distance.\<close>

definition get_nearest_dirty :: "VaccumCleaner \<Rightarrow> cell list \<Rightarrow> cell" where
  "get_nearest_dirty s dirty_cells =
     arg_min_list (\<lambda>c. \<bar>fst c - pos_x s\<bar> + \<bar>snd c - pos_y s\<bar>) dirty_cells"

text \<open>\<open>next_cell = self.path.pop(0); self.x, self.y = next_cell; self.battery.consume()\<close>, where
  the path is not empty.\<close>

definition follow_path :: "VaccumCleaner \<Rightarrow> VaccumCleaner" where
  "follow_path s =
     s\<lparr>pos_x := fst (hd (path s)), pos_y := snd (hd (path s)), path := tl (path s),
       battery := snd (consume None (battery s))\<rparr>"

definition astar_step :: "VaccumCleaner \<Rightarrow> error + VaccumCleaner" where
  "astar_step s =
     (case (if path s = [] then
              (case get_dirty_cells (env s) of
                 Inl e \<Rightarrow> Inl e
               | Inr dirty_cells \<Rightarrow>
                   if dirty_cells \<noteq> [] then
                     (case a_star s (pos_x s, pos_y s) (get_nearest_dirty s dirty_cells) of
                        Inl e \<Rightarrow> Inl e
                      | Inr p \<Rightarrow> Inr (s\<lparr>path := p\<rparr>))
                   else Inr s)
            else Inr s) of
        Inl e \<Rightarrow> Inl e
      | Inr s1 \<Rightarrow> if path s1 \<noteq> [] then Inr (follow_path s1) else Inr s1)"

text \<open>The two nested loops of \<open>_get_nearby_dirt\<close> over the offsets \<open>(dx, dy)\<close>, \<open>dx\<close> outermost.\<close>

fun scan_nearby :: "VaccumCleaner \<Rightarrow> (int \<times> int) list \<Rightarrow> error + cell list" where
  "scan_nearby s [] = Inr []"
| "scan_nearby s ((dx, dy) # ds) =
     (let nx = pos_x s + dx; ny = pos_y s + dy in
      if 0 \<le> nx \<and> nx < size_env (env s) \<and> 0 \<le> ny \<and> ny < size_env (env s) then
        (case get_cell (grid (env s)) ny nx of
           Inl e \<Rightarrow> Inl e
         | Inr c \<Rightarrow>
             (case scan_nearby s ds of
                Inl e \<Rightarrow> Inl e
              | Inr nearby \<Rightarrow> Inr (if c = 1 then (nx, ny) # nearby else nearby)))
      else scan_nearby s ds)"

text \<open>\<open>sorted\<close> is stable, as \<open>sort_key\<close> is.\<close>

definition get_nearby_dirt :: "int \<Rightarrow> VaccumCleaner \<Rightarrow> error + cell list" where
  "get_nearby_dirt radius s =
     (case scan_nearby s (List.product [- radius..radius] [- radius..radius]) of
        Inl e \<Rightarrow> Inl e
      | Inr nearby \<Rightarrow>
          Inr (sort_key (\<lambda>c. \<bar>fst c - pos_x s\<bar> + \<bar>snd c - pos_y s\<bar>) nearby))"

definition optimized_step :: "VaccumCleaner \<Rightarrow> error + VaccumCleaner" where
  "optimized_step s =
     (if current (battery s) < 30 then
        (case get_nearby_dirt 2 s of
           Inl e \<Rightarrow> Inl e
         | Inr nearby_dirt \<Rightarrow>
             if nearby_dirt \<noteq> [] then
               (if path s = [] \<or> last (path s) \<noteq> hd nearby_dirt then
                  (case a_star s (pos_x s, pos_y s) (hd nearby_dirt) of
                     Inl e \<Rightarrow> Inl e
                   | Inr p \<Rightarrow> Inr (s\<lparr>path := p\<rparr>))
                else Inr s)
             else Inr s)
      else astar_step s)"

definition handle_low_battery :: "VaccumCleaner \<Rightarrow> error + VaccumCleaner" where
  "handle_low_battery s =
     (if (pos_x s, pos_y s) = charger_pos s then
        (let s1 = s\<lparr>battery := charge (battery s)\<rparr>
         in Inr (s1\<lparr>metrics := record_step (pos_x s1, pos_y s1) (current (battery s1))
                                 ''charging'' (strategy s1) (metrics s1)\<rparr>))
      else
        (case (if path s = [] \<or> last (path s) \<noteq> charger_pos s then
                 (case a_star s (pos_x s, pos_y s) (charger_pos s) of
                    Inl e \<Rightarrow> Inl e
                  | Inr p \<Rightarrow> Inr (s\<lparr>path := p\<rparr>))
               else Inr s) of
           Inl e \<Rightarrow> Inl e
         | Inr s1 \<Rightarrow> if path s1 \<noteq> [] then Inr (follow_path s1) else Inr s1))"

text \<open>
  The strategy dispatch of \<open>step\<close>: the movement phase of a step whose low-battery branch
  is not taken.  A strategy name other than the three known ones moves nothing.
\<close>

definition execute_strategy :: "nat \<Rightarrow> VaccumCleaner \<Rightarrow> error + VaccumCleaner" where
  "execute_strategy k s =
     (if strategy s = ''random'' then random_step k s
      else if strategy s = ''astar'' then astar_step s
      else if strategy s = ''optimized'' then optimized_step s
      else Inr s)"

text \<open>\<open>step\<close>; \<open>k\<close> is the random draw of this step.  The low-battery branch returns early.\<close>

definition step :: "nat \<Rightarrow> VaccumCleaner \<Rightarrow> error + VaccumCleaner" where
  "step k s =
     (if needs_charging 20 (battery s) \<and> strategy s \<noteq> ''random'' then handle_low_battery s
      else
        (case execute_strategy k s of
           Inl e \<Rightarrow> Inl e
         | Inr s1 \<Rightarrow>
             clean (s1\<lparr>metrics := record_step (pos_x s1, pos_y s1) (current (battery s1))
                                    ''move'' (strategy s1) (metrics s1)\<rparr>)))"

section \<open>Vocabulary of the properties\<close>

text \<open>A grid of \<open>sz\<close> rows of \<open>sz\<close> cells, as the environment's constructor builds it.\<close>

definition wf_grid :: "int \<Rightarrow> int list list \<Rightarrow> bool" where
  "wf_grid sz g = (int (length g) = sz \<and> (\<forall>row \<in> set g. int (length row) = sz))"

text \<open>A cell within the bounds that is not an obstacle: one the search may enter.\<close>

definition passable :: "int \<Rightarrow> int list list \<Rightarrow> cell \<Rightarrow> bool" where
  "passable sz g c =
     (0 \<le> fst c \<and> fst c < sz \<and> 0 \<le> snd c \<and> snd c < sz \<and>
      (case get_cell g (snd c) (fst c) of Inl e \<Rightarrow> False | Inr v \<Rightarrow> v \<noteq> - 1))"

text \<open>The cells reached from \<open>start\<close> by moves in the four directions into passable cells.\<close>

inductive reachable :: "int \<Rightarrow> int list list \<Rightarrow> cell \<Rightarrow> cell \<Rightarrow> bool"
  for sz :: int and g :: "int list list" and start :: cell where
  start: "reachable sz g start start"
| move: "reachable sz g start (x, y) \<Longrightarrow> (dx, dy) \<in> set directions \<Longrightarrow>
         passable sz g (x + dx, y + dy) \<Longrightarrow> reachable sz g start (x + dx, y + dy)"

text \<open>Two grids of the same size with obstacles in the same cells.\<close>

definition same_obstacles :: "int \<Rightarrow> int list list \<Rightarrow> int list list \<Rightarrow> bool" where
  "same_obstacles sz g h =
     (wf_grid sz g \<and> wf_grid sz h \<and>
      (\<forall>x y. 0 \<le> x \<and> x < sz \<and> 0 \<le> y \<and> y < sz \<longrightarrow>
         (g ! nat y ! nat x = - 1) = (h ! nat y ! nat x = - 1)))"

definition obstacle_free :: "int list list \<Rightarrow> bool" where
  "obstacle_free g = (\<forall>row \<in> set g. \<forall>c \<in> set row. c \<noteq> - 1)"

text \<open>
  A well-formed agent state: the grid is \<open>size\<close> by \<open>size\<close>, the agent and every cell of
  its pending path are within the bounds.
\<close>

definition wf_agent :: "VaccumCleaner \<Rightarrow> bool" where
  "wf_agent s =
     (wf_grid (size_env (env s)) (grid (env s))
      \<and> (pos_x s, pos_y s) \<in> in_bounds (size_env (env s))
      \<and> set (path s) \<subseteq> in_bounds (size_env (env s)))"

text \<open>The cells of the environment that hold a charging station, as \<open>(x, y)\<close>.\<close>

definition charger_cells :: "Environment \<Rightarrow> cell list" where
  "charger_cells e =
     map (\<lambda>(y, x). (x, y))
       (filter (\<lambda>(y, x). get_cell (grid e) y x = Inr 2)
          (List.product [0..size_env e - 1] [0..size_env e - 1]))"

subsection \<open>Sample states\<close>

text \<open>
  A 5 by 5 grid as the constructor lays it out (obstacle at \<open>(2, 2)\<close>, charger at
  \<open>(4, 4)\<close>) with three dirty cells, and an agent on it at \<open>(2, 4)\<close> with a given battery
  level and strategy.
\<close>

definition sample_grid :: "int list list" where
  "sample_grid =
     [[0, 0, 1, 0, 0],
      [0, 0, 0, 0, 0],
      [0, 1, - 1, 0, 0],
      [0, 0, 0, 0, 0],
      [0, 0, 0, 1, 2]]"

definition sample_agent :: "int \<Rightarrow> string \<Rightarrow> VaccumCleaner" where
  "sample_agent level strat =
     \<lparr>env = \<lparr>size_env = 5, grid = sample_grid\<rparr>,
      pos_x = 2, pos_y = 4, cleaned = 0, epsilon = 1,
      battery = \<lparr>capacity = 100, current = level, drain_rate = 1, charge_rate = 5,
                 total_consumed = 100 - level, charge_cycles = 0\<rparr>,
      visited = {}, path = [], strategy = strat, metrics = PerformanceMetrics_init,
      charger_pos = (4, 4)\<rparr>"

text \<open>A grid whose cell \<open>(3, 3)\<close> has an obstacle on each of its four sides.\<close>

definition walled_grid :: "int list list" where
  "walled_grid =
     [[0, 0, 0, 0, 0],
      [0, 1, 0, 0, 0],
      [0, 0, 0, - 1, 0],
      [0, 0, - 1, 1, - 1],
      [0, 0, 0, - 1, 2]]"


section \<open>Battery: lemmas\<close>

lemma consume_fields:
  "capacity (snd (consume amount b)) = capacity b"
  "drain_rate (snd (consume amount b)) = drain_rate b"
  "charge_rate (snd (consume amount b)) = charge_rate b"
  "charge_cycles (snd (consume amount b)) = charge_cycles b"
  by (simp_all add: consume_def Let_def)

lemma charge_fields:
  "capacity (charge b) = capacity b"
  "drain_rate (charge b) = drain_rate b"
  "charge_rate (charge b) = charge_rate b"
  "total_consumed (charge b) = total_consumed b"
  by (simp_all add: charge_def Let_def)

lemma call_fields:
  "capacity (call c b) = capacity b"
  "drain_rate (call c b) = drain_rate b"
  "charge_rate (call c b) = charge_rate b"
  by (cases c; simp add: consume_fields charge_fields)+

lemma call_amount_call: "call_amount (call c b) d = call_amount b d"
proof (cases d)
  case (Consume amount)
  then show ?thesis
    by (cases amount) (simp_all add: call_fields)
next
  case Charge
  then show ?thesis
    by (simp add: call_fields)
qed

lemma call_level_ok:
  assumes "level_ok b" and "0 \<le> call_amount b c"
  shows "level_ok (call c b)"
proof (cases c)
  case (Consume amount)
  with assms show ?thesis
    by (cases amount) (auto simp: level_ok_def consume_def Let_def)
next
  case Charge
  with assms show ?thesis
    by (auto simp: level_ok_def charge_def Let_def)
qed

lemma calls_level_ok:
  "level_ok b \<Longrightarrow> \<forall>c \<in> set cs. 0 \<le> call_amount b c \<Longrightarrow> level_ok (calls cs b)"
proof (induction cs arbitrary: b)
  case Nil
  then show ?case by simp
next
  case (Cons c cs)
  have "level_ok (call c b)"
    using Cons.prems by (simp add: call_level_ok)
  moreover have "\<forall>d \<in> set cs. 0 \<le> call_amount (call c b) d"
    using Cons.prems by (simp add: call_amount_call)
  ultimately show ?case
    using Cons.IH by simp
qed

lemma calls_capacity: "capacity (calls cs b) = capacity b"
  by (induction cs arbitrary: b) (simp_all add: call_fields)

lemma calls_append: "calls (cs @ ds) b = calls ds (calls cs b)"
  by (induction cs arbitrary: b) simp_all

lemma consume_total:
  "total_consumed (snd (consume amount b)) =
     total_consumed b + (case amount of None \<Rightarrow> drain_rate b | Some v \<Rightarrow> v)"
  by (simp add: consume_def Let_def)

lemma calls_replicate_total:
  "total_consumed (calls (replicate n (Consume (Some a))) b) = total_consumed b + int n * a"
  by (induction n arbitrary: b) (simp_all add: consume_total algebra_simps)


section \<open>Path search: lemmas\<close>

lemma get_cell_wf:
  assumes "wf_grid sz g" "0 \<le> x" "x < sz" "0 \<le> y" "y < sz"
  shows "get_cell g y x = Inr (g ! nat y ! nat x)"
proof -
  have y: "py_index g y = Inr (nat y)"
    using assms by (simp add: py_index_def wf_grid_def Let_def)
  have "nat y < length g"
    using assms by (auto simp: wf_grid_def)
  then have "g ! nat y \<in> set g"
    by (rule nth_mem)
  then have "int (length (g ! nat y)) = sz"
    using assms(1) by (simp add: wf_grid_def)
  then have "py_index (g ! nat y) x = Inr (nat x)"
    using assms by (simp add: py_index_def Let_def)
  with y show ?thesis
    by (simp add: get_cell_def)
qed

lemma push_neighbors_total:
  assumes "wf_grid sz gr"
  shows "\<exists>open2. push_neighbors sz gr eps goal vis g c pth ds open_set = Inr open2"
proof (induction ds arbitrary: open_set)
  case Nil
  then show ?case by (cases c) simp
next
  case (Cons d ds)
  obtain x y dx dy where [simp]: "c = (x, y)" "d = (dx, dy)"
    by (cases c, cases d) blast
  show ?case
    using Cons.IH assms by (simp add: Let_def get_cell_wf)
qed

lemma a_star_loop_total:
  assumes "wf_grid sz gr"
  shows "\<exists>p. a_star_loop sz gr eps goal open_set vis = Inr p"
  using assms
proof (induction sz gr eps goal open_set vis rule: a_star_loop.induct)
  case (1 sz gr eps goal open_set vis)
  show ?case
  proof (cases "open_set = []")
    case True
    then show ?thesis by (simp add: a_star_loop.simps)
  next
    case False
    define e where "e = min_list open_set"
    define rest where "rest = remove1 e open_set"
    obtain open2 where open2:
      "push_neighbors sz gr eps goal (insert (entry_cell e) vis) (entry_g e)
          (entry_cell e) (entry_path e) directions rest = Inr open2"
      using push_neighbors_total [OF "1.prems"] by blast
    show ?thesis
      using "1.IH"(1) [OF False e_def rest_def] "1.IH"(2) [OF False e_def rest_def _ _ open2]
        "1.prems" False open2
      by (subst a_star_loop.simps) (auto simp: Let_def e_def [symmetric] rest_def [symmetric])
  qed
qed

lemma a_star_total: "wf_grid (size_env (env s)) (grid (env s)) \<Longrightarrow> \<exists>p. a_star s start goal = Inr p"
  by (simp add: a_star_def a_star_loop_total)

text \<open>Only reachable cells are ever queued.\<close>

lemma push_neighbors_reachable:
  assumes "push_neighbors sz gr eps goal vis g (x, y) pth ds open_set = Inr open2"
    and "reachable sz gr start (x, y)"
    and "set ds \<subseteq> set directions"
    and "\<forall>e \<in> set open_set. reachable sz gr start (entry_cell e)"
  shows "\<forall>e \<in> set open2. reachable sz gr start (entry_cell e)"
  using assms
proof (induction ds arbitrary: open_set)
  case Nil
  then show ?case by simp
next
  case (Cons d ds)
  obtain dx dy where d: "d = (dx, dy)"
    by (cases d) blast
  consider
    (skip) "push_neighbors sz gr eps goal vis g (x, y) pth ds open_set = Inr open2"
  | (push) "passable sz gr (x + dx, y + dy)" and
      "push_neighbors sz gr eps goal vis g (x, y) pth ds
         (heappush open_set
            (of_int (g + 1) + eps * of_int (heuristic (x + dx, y + dy) goal), g + 1,
             (x + dx, y + dy), pth @ [(x + dx, y + dy)])) = Inr open2"
    using Cons.prems(1) unfolding d
    by (simp add: Let_def passable_def split: if_splits sum.splits)
  then show ?case
  proof cases
    case skip
    then show ?thesis
      using Cons by simp
  next
    case push
    have "reachable sz gr start (x + dx, y + dy)"
      using Cons.prems(2,3) push(1) d by (auto intro: reachable.move)
    then have "\<forall>e \<in> set (heappush open_set
            (of_int (g + 1) + eps * of_int (heuristic (x + dx, y + dy) goal), g + 1,
             (x + dx, y + dy), pth @ [(x + dx, y + dy)])). reachable sz gr start (entry_cell e)"
      using Cons.prems(4) by (simp add: heappush_def entry_cell_simp)
    then show ?thesis
      using Cons.IH [OF push(2)] Cons.prems(2,3) by simp
  qed
qed

lemma a_star_loop_unreachable:
  assumes "\<not> reachable sz gr start goal"
    and "\<forall>e \<in> set open_set. reachable sz gr start (entry_cell e)"
    and "a_star_loop sz gr eps goal open_set vis = Inr p"
  shows "p = []"
  using assms
proof (induction sz gr eps goal open_set vis rule: a_star_loop.induct)
  case (1 sz gr eps goal open_set vis)
  show ?case
  proof (cases "open_set = []")
    case True
    then show ?thesis
      using "1.prems"(3) by (simp add: a_star_loop.simps)
  next
    case False
    define e where "e = min_list open_set"
    define rest where "rest = remove1 e open_set"
    have e_in: "e \<in> set open_set"
      using False by (simp add: e_def min_list_in)
    then have e_reach: "reachable sz gr start (entry_cell e)"
      using "1.prems"(2) by blast
    then have not_goal: "entry_cell e \<noteq> goal"
      using "1.prems"(1) by auto
    have rest_reach: "\<forall>e \<in> set rest. reachable sz gr start (entry_cell e)"
      using "1.prems"(2) set_remove1_subset [of e open_set] by (auto simp: rest_def)
    show ?thesis
    proof (cases "entry_cell e \<in> vis")
      case True
      then have "a_star_loop sz gr eps goal rest vis = Inr p"
        using "1.prems"(3) False not_goal
        by (subst (asm) a_star_loop.simps) (simp add: Let_def e_def [symmetric] rest_def [symmetric])
      then show ?thesis
        using "1.IH"(1) [OF False e_def rest_def not_goal True "1.prems"(1) rest_reach] by simp
    next
      case unseen: False
      obtain open2 where open2:
        "push_neighbors sz gr eps goal (insert (entry_cell e) vis) (entry_g e)
            (entry_cell e) (entry_path e) directions rest = Inr open2"
        and res: "a_star_loop sz gr eps goal open2 (insert (entry_cell e) vis) = Inr p"
        using "1.prems"(3) False not_goal unseen
        by (subst (asm) a_star_loop.simps)
           (auto simp: Let_def e_def [symmetric] rest_def [symmetric] split: sum.splits)
      have "\<forall>e \<in> set open2. reachable sz gr start (entry_cell e)"
        using push_neighbors_reachable [of sz gr eps goal _ _ "fst (entry_cell e)" "snd (entry_cell e)"]
          open2 e_reach rest_reach by simp
      then show ?thesis
        using "1.IH"(2) [OF False e_def rest_def not_goal unseen open2 "1.prems"(1) _ res] by simp
    qed
  qed
qed

lemma reachable_start_or_passable:
  "reachable sz g start c \<Longrightarrow> c = start \<or> passable sz g c"
  by (induction rule: reachable.induct) simp_all

lemma blocked_unreachable:
  assumes "start \<noteq> goal"
    and "\<forall>d \<in> set directions.
           (fst goal - fst d, snd goal - snd d) \<noteq> start
         \<and> \<not> passable sz g (fst goal - fst d, snd goal - snd d)"
  shows "\<not> reachable sz g start goal"
proof
  assume "reachable sz g start goal"
  then show False
  proof (cases rule: reachable.cases)
    case start
    with assms(1) show False by simp
  next
    case (move x y dx dy)
    have "(x, y) = start \<or> passable sz g (x, y)"
      using move(2) by (rule reachable_start_or_passable)
    moreover have "(x, y) = (fst goal - fst (dx, dy), snd goal - snd (dx, dy))"
      using move(1) by auto
    ultimately show False
      using assms(2) move(3) by metis
  qed
qed

lemma a_star_same_cell: "a_star s c c = Inr []"
proof -
  have "min_list [e] = e" for e :: entry
    by simp
  then show ?thesis
    by (simp add: a_star_def heappush_def a_star_loop.simps [of _ _ _ _ "[e]" for e]
        entry_cell_def entry_path_def Let_def)
qed

lemma a_star_unreachable:
  assumes "wf_grid (size_env (env s)) (grid (env s))"
    and "\<not> reachable (size_env (env s)) (grid (env s)) start goal"
  shows "a_star s start goal = Inr []"
proof -
  obtain p where p: "a_star s start goal = Inr p"
    using a_star_total [OF assms(1)] by blast
  have "p = []"
    using a_star_loop_unreachable [OF assms(2) _ p [unfolded a_star_def]]
    by (simp add: heappush_def entry_cell_simp reachable.start)
  with p show ?thesis by simp
qed

lemma push_neighbors_same_obstacles:
  assumes "same_obstacles sz g h"
  shows "push_neighbors sz g eps goal vis gc c pth ds open_set =
         push_neighbors sz h eps goal vis gc c pth ds open_set"
proof (induction ds arbitrary: open_set)
  case Nil
  then show ?case by (cases c) simp
next
  case (Cons d ds)
  obtain x y dx dy where [simp]: "c = (x, y)" "d = (dx, dy)"
    by (cases c, cases d) blast
  have "(case get_cell g (y + dy) (x + dx) of Inl e \<Rightarrow> Inl e | Inr v \<Rightarrow> Inr (v \<noteq> - 1)) =
        (case get_cell h (y + dy) (x + dx) of Inl e \<Rightarrow> Inl e | Inr v \<Rightarrow> Inr (v \<noteq> - 1))"
    if "0 \<le> x + dx" "x + dx < sz" "0 \<le> y + dy" "y + dy < sz"
    using assms that by (simp add: get_cell_wf [of sz] same_obstacles_def)
  then show ?case
    using Cons.IH by (auto simp: Let_def split: sum.splits)
qed

lemma a_star_loop_same_obstacles:
  assumes "same_obstacles sz g h"
  shows "a_star_loop sz g eps goal open_set vis = a_star_loop sz h eps goal open_set vis"
  using assms
proof (induction sz g eps goal open_set vis rule: a_star_loop.induct)
  case (1 sz g eps goal open_set vis)
  show ?case
  proof (cases "open_set = []")
    case True
    then show ?thesis by (simp add: a_star_loop.simps)
  next
    case False
    define e where "e = min_list open_set"
    define rest where "rest = remove1 e open_set"
    note push = push_neighbors_same_obstacles [OF "1.prems"]
    show ?thesis
    proof (cases "entry_cell e = goal \<or> entry_cell e \<in> vis")
      case True
      then show ?thesis
        using "1.IH"(1) [OF False e_def rest_def] "1.prems" False
        by (subst (1 2) a_star_loop.simps)
           (auto simp: Let_def e_def [symmetric] rest_def [symmetric])
    next
      case expand: False
      show ?thesis
      proof (cases "push_neighbors sz g eps goal (insert (entry_cell e) vis) (entry_g e)
            (entry_cell e) (entry_path e) directions rest")
        case (Inl err)
        then show ?thesis
          using False expand push [of eps goal "insert (entry_cell e) vis" "entry_g e"
              "entry_cell e" "entry_path e" directions rest]
          by (subst (1 2) a_star_loop.simps)
             (simp add: Let_def e_def [symmetric] rest_def [symmetric])
      next
        case (Inr open2)
        then show ?thesis
          using False expand push [of eps goal "insert (entry_cell e) vis" "entry_g e"
              "entry_cell e" "entry_path e" directions rest]
            "1.IH"(2) [OF False e_def rest_def _ _ Inr] "1.prems"
          by (subst (1 2) a_star_loop.simps)
             (simp add: Let_def e_def [symmetric] rest_def [symmetric])
      qed
    qed
  qed
qed

lemma obstacle_free_same:
  assumes "wf_grid 5 g" "obstacle_free g"
  shows "same_obstacles 5 g (replicate 5 (replicate 5 0))"
proof -
  have g_ok: "g ! nat y ! nat x \<noteq> - 1" if "0 \<le> x" "x < 5" "0 \<le> y" "y < 5" for x y
  proof -
    have "nat y < length g"
      using assms(1) that by (auto simp: wf_grid_def)
    then have row: "g ! nat y \<in> set g"
      by (rule nth_mem)
    then have "nat x < length (g ! nat y)"
      using assms(1) that by (auto simp: wf_grid_def)
    then have "g ! nat y ! nat x \<in> set (g ! nat y)"
      by (rule nth_mem)
    with row assms(2) show ?thesis
      by (auto simp: obstacle_free_def)
  qed
  have r_ok: "replicate 5 (replicate 5 0) ! nat y ! nat x = (0::int)"
    if "0 \<le> x" "x < 5" "0 \<le> y" "y < 5" for x y :: int
  proof -
    have "nat y < 5" "nat x < 5"
      using that by simp_all
    then show ?thesis
      by simp
  qed
  have "wf_grid 5 (replicate 5 (replicate 5 0))"
    by (simp add: wf_grid_def)
  then show ?thesis
    unfolding same_obstacles_def using assms(1)
    by (intro conjI allI impI; (elim conjE)?; simp add: g_ok r_ok)
qed


section \<open>Cells\<close>

lemma py_index_less: "py_index xs i = Inr j \<Longrightarrow> j < length xs"
  by (auto simp: py_index_def Let_def split: if_splits)

lemma py_index_length: "length xs = length ys \<Longrightarrow> py_index xs i = py_index ys i"
  by (simp add: py_index_def)

lemma get_cell_set_cell:
  assumes "set_cell g y x v = Inr g'"
  shows "get_cell g' y x = Inr v"
proof -
  obtain j i where j: "py_index g y = Inr j" and i: "py_index (g ! j) x = Inr i"
    and g': "g' = g[j := (g ! j)[i := v]]"
    using assms by (auto simp: set_cell_def split: sum.splits)
  have lj: "j < length g" and li: "i < length (g ! j)"
    using j i by (auto dest: py_index_less)
  have "py_index g' y = Inr j"
    using j py_index_length [of g' g y] by (simp add: g')
  moreover have row: "g' ! j = (g ! j)[i := v]"
    using lj by (simp add: g')
  moreover have "py_index ((g ! j)[i := v]) x = Inr i"
    using i py_index_length [of "(g ! j)[i := v]" "g ! j" x] by simp
  ultimately show ?thesis
    using li by (simp add: get_cell_def)
qed

lemma set_cell_total:
  "get_cell g y x = Inr c \<Longrightarrow> \<exists>g'. set_cell g y x v = Inr g'"
  by (auto simp: get_cell_def set_cell_def split: sum.splits)

section \<open>The cleaning phase\<close>

lemma clean_effect:
  assumes "clean t = Inr t'"
  shows "pos_x t' = pos_x t \<and> pos_y t' = pos_y t \<and> battery t' = battery t \<and> path t' = path t
       \<and> visited t' = insert (pos_x t, pos_y t) (visited t)
       \<and> (if get_cell (grid (env t)) (pos_y t) (pos_x t) = Inr 1
          then set_cell (grid (env t)) (pos_y t) (pos_x t) 0 = Inr (grid (env t'))
             \<and> get_cell (grid (env t')) (pos_y t) (pos_x t) = Inr 0
             \<and> cleaned t' = cleaned t + 1
          else grid (env t') = grid (env t) \<and> cleaned t' = cleaned t)"
proof (cases "get_cell (grid (env t)) (pos_y t) (pos_x t) = Inr 1")
  case True
  then obtain g where g: "set_cell (grid (env t)) (pos_y t) (pos_x t) 0 = Inr g"
    and t': "t' = t\<lparr>env := (env t)\<lparr>grid := g\<rparr>, cleaned := cleaned t + 1,
                    metrics := record_cleaning (strategy t) (metrics t),
                    visited := insert (pos_x t, pos_y t) (visited t)\<rparr>"
    using assms by (auto simp: clean_def split: sum.splits)
  show ?thesis
    using True g get_cell_set_cell [OF g] by (simp add: t')
next
  case False
  then show ?thesis
    using assms by (auto simp: clean_def split: sum.splits if_splits)
qed

lemma clean_total:
  assumes "get_cell (grid (env t)) (pos_y t) (pos_x t) = Inr c"
  shows "\<exists>t'. clean t = Inr t'"
  using assms set_cell_total [OF assms, of 0] by (auto simp: clean_def)

section \<open>The movement phase\<close>

lemma follow_path_frame:
  "env (follow_path s) = env s" "cleaned (follow_path s) = cleaned s"
  "visited (follow_path s) = visited s" "metrics (follow_path s) = metrics s"
  "strategy (follow_path s) = strategy s"
  by (simp_all add: follow_path_def)

lemma random_step_frame:
  assumes "random_step k s = Inr s1"
  shows "env s1 = env s \<and> cleaned s1 = cleaned s \<and> visited s1 = visited s
       \<and> metrics s1 = metrics s \<and> strategy s1 = strategy s"
  using assms
  by (auto simp: random_step_def Let_def split: prod.splits if_splits sum.splits)

lemma astar_step_frame:
  assumes "astar_step s = Inr s1"
  shows "env s1 = env s \<and> cleaned s1 = cleaned s \<and> visited s1 = visited s
       \<and> metrics s1 = metrics s \<and> strategy s1 = strategy s"
  using assms
  by (auto simp: astar_step_def follow_path_frame split: if_splits sum.splits)

lemma conserve_shape:
  assumes "current (battery s) < 30" and "optimized_step s = Inr s1"
  shows "s1 = s\<lparr>path := path s1\<rparr>
       \<and> (path s1 = path s
          \<or> (\<exists>d ds. get_nearby_dirt 2 s = Inr (d # ds)
                \<and> a_star s (pos_x s, pos_y s) d = Inr (path s1)))"
proof (cases "get_nearby_dirt 2 s")
  case (Inl e)
  then show ?thesis
    using assms by (simp add: optimized_step_def)
next
  case (Inr nearby_dirt)
  show ?thesis
  proof (cases nearby_dirt)
    case Nil
    then show ?thesis
      using assms Inr by (simp add: optimized_step_def)
  next
    case (Cons d ds)
    then show ?thesis
      using assms Inr by (auto simp: optimized_step_def split: if_splits sum.splits)
  qed
qed

lemma optimized_step_frame:
  assumes "optimized_step s = Inr s1"
  shows "env s1 = env s \<and> cleaned s1 = cleaned s \<and> visited s1 = visited s
       \<and> metrics s1 = metrics s \<and> strategy s1 = strategy s"
proof (cases "current (battery s) < 30")
  case True
  from conserve_shape [OF True assms] obtain p where "s1 = s\<lparr>path := p\<rparr>"
    by blast
  then show ?thesis
    by simp
next
  case False
  then show ?thesis
    using assms astar_step_frame by (simp add: optimized_step_def)
qed

lemma execute_strategy_frame:
  assumes "execute_strategy k s = Inr s1"
  shows "env s1 = env s \<and> cleaned s1 = cleaned s \<and> visited s1 = visited s
       \<and> metrics s1 = metrics s \<and> strategy s1 = strategy s"
  using assms random_step_frame astar_step_frame optimized_step_frame
  by (auto simp: execute_strategy_def split: if_splits)

lemma scan_nearby_total:
  assumes "wf_grid (size_env (env s)) (grid (env s))"
  shows "\<exists>nearby. scan_nearby s ds = Inr nearby"
proof (induction ds)
  case Nil
  then show ?case by simp
next
  case (Cons d ds)
  obtain dx dy where [simp]: "d = (dx, dy)"
    by (cases d) blast
  have "\<exists>c. get_cell (grid (env s)) (pos_y s + dy) (pos_x s + dx) = Inr c"
    if "0 \<le> pos_x s + dx" "pos_x s + dx < size_env (env s)"
       "0 \<le> pos_y s + dy" "pos_y s + dy < size_env (env s)"
    using assms that by (simp add: get_cell_wf [of "size_env (env s)"])
  then show ?case
    using Cons.IH by (auto simp: Let_def split: sum.splits)
qed

lemma optimized_step_total:
  assumes "wf_grid (size_env (env s)) (grid (env s))" and "current (battery s) < 30"
  shows "\<exists>s1. optimized_step s = Inr s1"
proof -
  obtain nearby where "scan_nearby s (List.product [- 2..2] [- 2..2]) = Inr nearby"
    using scan_nearby_total [OF assms(1)] by blast
  then obtain nearby_dirt where n: "get_nearby_dirt 2 s = Inr nearby_dirt"
    by (simp add: get_nearby_dirt_def)
  obtain p where "a_star s (pos_x s, pos_y s) (hd nearby_dirt) = Inr p"
    using a_star_total [OF assms(1)] by blast
  then show ?thesis
    using assms(2) n by (simp add: optimized_step_def)
qed

section \<open>Well-formed states\<close>

lemma set_cell_wf:
  assumes "wf_grid sz g" and "set_cell g y x v = Inr g'"
  shows "wf_grid sz g'"
proof -
  obtain j i where j: "py_index g y = Inr j" and g': "g' = g[j := (g ! j)[i := v]]"
    using assms(2) by (auto simp: set_cell_def split: sum.splits)
  have "j < length g"
    using j by (rule py_index_less)
  then have "int (length ((g ! j)[i := v])) = sz"
    using assms(1) by (simp add: wf_grid_def)
  moreover have "set g' \<subseteq> insert ((g ! j)[i := v]) (set g)"
    unfolding g' by (rule set_update_subset_insert)
  ultimately show ?thesis
    using assms(1) by (auto simp: wf_grid_def g')
qed

lemma set_cell_in_bounds:
  assumes "wf_grid sz g" "0 \<le> x" "x < sz" "0 \<le> y" "y < sz"
  shows "set_cell g y x v = Inr (g[nat y := (g ! nat y)[nat x := v]])"
proof -
  obtain c where "get_cell g y x = Inr c"
    using get_cell_wf [OF assms] by blast
  then show ?thesis
    using assms(2,4) by (auto simp: get_cell_def set_cell_def py_index_def split: sum.splits if_splits)
qed

lemma get_cell_update:
  assumes "wf_grid sz g" "0 \<le> x" "x < sz" "0 \<le> y" "y < sz"
    "0 \<le> x'" "x' < sz" "0 \<le> y'" "y' < sz"
  shows "get_cell (g[nat y := (g ! nat y)[nat x := v]]) y' x' =
         Inr (if x' = x \<and> y' = y then v else g ! nat y' ! nat x')"
proof -
  have s: "set_cell g y x v = Inr (g[nat y := (g ! nat y)[nat x := v]])"
    using assms(1-5) by (rule set_cell_in_bounds)
  have "wf_grid sz (g[nat y := (g ! nat y)[nat x := v]])"
    using assms(1) s by (rule set_cell_wf)
  then have "get_cell (g[nat y := (g ! nat y)[nat x := v]]) y' x' =
      Inr (g[nat y := (g ! nat y)[nat x := v]] ! nat y' ! nat x')"
    using assms(6-9) by (rule get_cell_wf)
  moreover have "nat y < length g" "nat x < length (g ! nat y)" "nat y' < length g"
    using assms by (auto simp: wf_grid_def)
  ultimately show ?thesis
    using assms(2,4,6,8) by (auto simp: nth_list_update)
qed

text \<open>From size 4 on the constructor leaves exactly the bottom-right cell a charger.\<close>

lemma Environment_init_from_4:
  assumes "4 \<le> sz"
  shows "\<exists>e. Environment_init sz dirt_prob rnd = Inr e \<and> size_env e = sz
           \<and> wf_grid sz (grid e)
           \<and> (\<forall>x y. 0 \<le> x \<and> x < sz \<and> 0 \<le> y \<and> y < sz \<longrightarrow>
                 (get_cell (grid e) y x = Inr 2) = (x = sz - 1 \<and> y = sz - 1))"
proof -
  define g0 where
    "g0 = map (\<lambda>y. map (\<lambda>x. if rnd y x > dirt_prob then 0 else 1 :: int) [0..<nat sz]) [0..<nat sz]"
  define g1 where "g1 = g0[nat 0 := (g0 ! nat 0)[nat 0 := 0]]"
  define g2 where "g2 = g1[nat (sz - 1) := (g1 ! nat (sz - 1))[nat (sz - 1) := 2]]"
  define g3 where "g3 = g2[nat 2 := (g2 ! nat 2)[nat 2 := - 1]]"
  have wf0: "wf_grid sz g0"
    using assms by (auto simp: wf_grid_def g0_def)
  have s1: "set_cell g0 0 0 0 = Inr g1"
    unfolding g1_def using wf0 assms by (intro set_cell_in_bounds [of sz]) simp_all
  have wf1: "wf_grid sz g1"
    using wf0 s1 by (rule set_cell_wf)
  have s2: "set_cell g1 (sz - 1) (sz - 1) 2 = Inr g2"
    unfolding g2_def using wf1 assms by (intro set_cell_in_bounds [of sz]) simp_all
  have wf2: "wf_grid sz g2"
    using wf1 s2 by (rule set_cell_wf)
  have s3: "set_cell g2 2 2 (- 1) = Inr g3"
    unfolding g3_def using wf2 assms by (intro set_cell_in_bounds [of sz]) simp_all
  have wf3: "wf_grid sz g3"
    using wf2 s3 by (rule set_cell_wf)
  have init: "Environment_init sz dirt_prob rnd = Inr \<lparr>size_env = sz, grid = g3\<rparr>"
    using s1 s2 s3 by (simp add: Environment_init_def g0_def [symmetric])
  have c0: "g0 ! nat y ! nat x \<noteq> 2" if "0 \<le> x" "x < sz" "0 \<le> y" "y < sz" for x y
  proof -
    have "nat y < nat sz" "nat x < nat sz"
      using that by simp_all
    then show ?thesis
      by (simp add: g0_def)
  qed
  have "(get_cell g3 y x = Inr 2) = (x = sz - 1 \<and> y = sz - 1)"
    if b: "0 \<le> x" "x < sz" "0 \<le> y" "y < sz" for x y
  proof -
    have e0: "get_cell g0 y x = Inr (g0 ! nat y ! nat x)"
      using wf0 b by (rule get_cell_wf)
    have e1: "get_cell g1 y x = Inr (if x = 0 \<and> y = 0 then 0 else g0 ! nat y ! nat x)"
      unfolding g1_def using wf0 assms b by (intro get_cell_update [of sz]) simp_all
    have e1': "get_cell g1 y x = Inr (g1 ! nat y ! nat x)"
      using wf1 b by (rule get_cell_wf)
    have e2: "get_cell g2 y x = Inr (if x = sz - 1 \<and> y = sz - 1 then 2 else g1 ! nat y ! nat x)"
      unfolding g2_def using wf1 assms b by (intro get_cell_update [of sz]) simp_all
    have e2': "get_cell g2 y x = Inr (g2 ! nat y ! nat x)"
      using wf2 b by (rule get_cell_wf)
    have e3: "get_cell g3 y x = Inr (if x = 2 \<and> y = 2 then - 1 else g2 ! nat y ! nat x)"
      unfolding g3_def using wf2 assms b by (intro get_cell_update [of sz]) simp_all
    show ?thesis
      using e1 e1' e2 e2' e3 c0 [OF b] assms by (auto split: if_splits)
  qed
  with init wf3 show ?thesis
    by simp
qed

lemma clean_keeps_chargers:
  assumes "wf_agent s" and "clean s = Inr s'"
    and "0 \<le> x" "x < size_env (env s)" "0 \<le> y" "y < size_env (env s)"
  shows "size_env (env s') = size_env (env s)
       \<and> wf_grid (size_env (env s')) (grid (env s'))
       \<and> (get_cell (grid (env s')) y x = Inr 2) = (get_cell (grid (env s)) y x = Inr 2)"
proof (cases "get_cell (grid (env s)) (pos_y s) (pos_x s) = Inr 1")
  case False
  then have "env s' = env s"
    using assms(2) by (auto simp: clean_def split: sum.splits if_splits)
  then show ?thesis
    using assms(1) by (simp add: wf_agent_def)
next
  case True
  let ?sz = "size_env (env s)" and ?g = "grid (env s)"
  have wf: "wf_grid ?sz ?g" and p: "0 \<le> pos_x s" "pos_x s < ?sz" "0 \<le> pos_y s" "pos_y s < ?sz"
    using assms(1) by (simp_all add: wf_agent_def in_bounds_iff)
  have sc: "set_cell ?g (pos_y s) (pos_x s) 0
      = Inr (?g[nat (pos_y s) := (?g ! nat (pos_y s))[nat (pos_x s) := 0]])"
    using wf p by (rule set_cell_in_bounds)
  then have e: "env s' = (env s)\<lparr>grid := ?g[nat (pos_y s) := (?g ! nat (pos_y s))[nat (pos_x s) := 0]]\<rparr>"
    using assms(2) True by (auto simp: clean_def)
  have old: "?g ! nat (pos_y s) ! nat (pos_x s) = 1"
    using True get_cell_wf [OF wf p] by simp
  have "get_cell (?g[nat (pos_y s) := (?g ! nat (pos_y s))[nat (pos_x s) := 0]]) y x =
      Inr (if x = pos_x s \<and> y = pos_y s then 0 else ?g ! nat y ! nat x)"
    using wf p assms(3-6) by (rule get_cell_update)
  moreover have "get_cell ?g y x = Inr (?g ! nat y ! nat x)"
    using wf assms(3-6) by (rule get_cell_wf)
  ultimately have "(get_cell (grid (env s')) y x = Inr 2) = (get_cell ?g y x = Inr 2)"
    using old by (auto simp: e)
  moreover have "wf_grid ?sz (grid (env s'))"
    using set_cell_wf [OF wf sc] by (simp add: e)
  ultimately show ?thesis
    by (simp add: e)
qed

lemma Environment_init_wf:
  assumes "Environment_init sz dirt_prob rnd = Inr e"
  shows "size_env e = sz \<and> 3 \<le> sz \<and> wf_grid sz (grid e)"
proof -
  define g0 where
    "g0 = map (\<lambda>y. map (\<lambda>x. if rnd y x > dirt_prob then 0 else 1 :: int) [0..<nat sz]) [0..<nat sz]"
  obtain g1 g2 g3 where s1: "set_cell g0 0 0 0 = Inr g1"
    and s2: "set_cell g1 (sz - 1) (sz - 1) 2 = Inr g2"
    and s3: "set_cell g2 2 2 (- 1) = Inr g3"
    and e: "e = \<lparr>size_env = sz, grid = g3\<rparr>"
    using assms unfolding Environment_init_def g0_def [symmetric]
    by (auto simp: Let_def split: sum.splits)
  have "length g0 = nat sz"
    by (simp add: g0_def)
  moreover have "g0 \<noteq> []"
    using s1 by (auto simp: set_cell_def py_index_def)
  ultimately have pos: "0 < sz"
    by (cases "0 < sz") auto
  then have wf0: "wf_grid sz g0"
    by (auto simp: wf_grid_def g0_def)
  have wf2: "wf_grid sz g2"
    using wf0 s1 s2 by (blast intro: set_cell_wf)
  then have wf3: "wf_grid sz g3"
    using s3 by (rule set_cell_wf)
  obtain j where "py_index g2 2 = Inr j"
    using s3 by (auto simp: set_cell_def split: sum.splits)
  then have "2 < int (length g2)"
    by (auto simp: py_index_def split: if_splits)
  then have "3 \<le> sz"
    using wf2 by (simp add: wf_grid_def)
  with wf3 show ?thesis
    by (simp add: e)
qed

lemma constructed_agent_wf:
  assumes "Environment_init sz dirt_prob rnd = Inr e"
    and "VaccumCleaner_init e strat eps = Inr s"
  shows "wf_agent s"
  using Environment_init_wf [OF assms(1)] assms(2)
  by (auto simp: VaccumCleaner_init_def Battery_init_def wf_agent_def in_bounds_iff)


text \<open>A step of a well-formed agent raises nothing and gives a well-formed agent.\<close>

lemma push_neighbors_paths:
  assumes "push_neighbors sz gr eps goal vis g c pth ds open_set = Inr open2"
    and "pth \<noteq> []" and "set (tl pth) \<subseteq> in_bounds sz"
    and "\<forall>e \<in> set open_set. entry_path e \<noteq> [] \<and> set (tl (entry_path e)) \<subseteq> in_bounds sz"
  shows "\<forall>e \<in> set open2. entry_path e \<noteq> [] \<and> set (tl (entry_path e)) \<subseteq> in_bounds sz"
  using assms
proof (induction ds arbitrary: open_set)
  case Nil
  then show ?case by (cases c) simp
next
  case (Cons d ds)
  obtain x y dx dy where c: "c = (x, y)" and d: "d = (dx, dy)"
    by (cases c, cases d) blast
  consider
    (skip) "push_neighbors sz gr eps goal vis g c pth ds open_set = Inr open2"
  | (push) "(x + dx, y + dy) \<in> in_bounds sz" and
      "push_neighbors sz gr eps goal vis g c pth ds
         (heappush open_set
            (of_int (g + 1) + eps * of_int (heuristic (x + dx, y + dy) goal), g + 1,
             (x + dx, y + dy), pth @ [(x + dx, y + dy)])) = Inr open2"
    using Cons.prems(1) unfolding c d
    by (simp add: Let_def in_bounds_iff split: if_splits sum.splits)
  then show ?case
  proof cases
    case skip
    then show ?thesis
      using Cons.prems(2-4) by (rule Cons.IH)
  next
    case push
    have "tl (pth @ [(x + dx, y + dy)]) = tl pth @ [(x + dx, y + dy)]"
      using Cons.prems(2) by simp
    then have "set (tl (pth @ [(x + dx, y + dy)])) \<subseteq> in_bounds sz"
      using Cons.prems(3) push(1) by simp
    then have "\<forall>e \<in> set (heappush open_set
            (of_int (g + 1) + eps * of_int (heuristic (x + dx, y + dy) goal), g + 1,
             (x + dx, y + dy), pth @ [(x + dx, y + dy)])).
          entry_path e \<noteq> [] \<and> set (tl (entry_path e)) \<subseteq> in_bounds sz"
      using Cons.prems(4) by (simp add: heappush_def entry_path_def)
    with push(2) Cons.prems(2,3) show ?thesis
      by (rule Cons.IH)
  qed
qed

lemma a_star_loop_in_bounds:
  assumes "\<forall>e \<in> set open_set. entry_path e \<noteq> [] \<and> set (tl (entry_path e)) \<subseteq> in_bounds sz"
    and "a_star_loop sz gr eps goal open_set vis = Inr p"
  shows "set p \<subseteq> in_bounds sz"
  using assms
proof (induction sz gr eps goal open_set vis rule: a_star_loop.induct)
  case (1 sz gr eps goal open_set vis)
  show ?case
  proof (cases "open_set = []")
    case True
    then show ?thesis
      using "1.prems"(2) by (simp add: a_star_loop.simps)
  next
    case False
    define e where "e = min_list open_set"
    define rest where "rest = remove1 e open_set"
    have "e \<in> set open_set"
      using False by (simp add: e_def min_list_in)
    then have e_ok: "entry_path e \<noteq> []" "set (tl (entry_path e)) \<subseteq> in_bounds sz"
      using "1.prems"(1) by blast+
    have rest_ok: "\<forall>e \<in> set rest. entry_path e \<noteq> [] \<and> set (tl (entry_path e)) \<subseteq> in_bounds sz"
      using "1.prems"(1) set_remove1_subset [of e open_set] by (auto simp: rest_def)
    show ?thesis
    proof (cases "entry_cell e = goal")
      case True
      then have "p = tl (entry_path e)"
        using "1.prems"(2) False
        by (subst (asm) a_star_loop.simps) (simp add: Let_def e_def [symmetric])
      with e_ok show ?thesis by simp
    next
      case not_goal: False
      show ?thesis
      proof (cases "entry_cell e \<in> vis")
        case True
        then have "a_star_loop sz gr eps goal rest vis = Inr p"
          using "1.prems"(2) False not_goal
          by (subst (asm) a_star_loop.simps)
             (simp add: Let_def e_def [symmetric] rest_def [symmetric])
        then show ?thesis
          using "1.IH"(1) [OF False e_def rest_def not_goal True rest_ok] by simp
      next
        case unseen: False
        obtain open2 where open2:
          "push_neighbors sz gr eps goal (insert (entry_cell e) vis) (entry_g e)
              (entry_cell e) (entry_path e) directions rest = Inr open2"
          and res: "a_star_loop sz gr eps goal open2 (insert (entry_cell e) vis) = Inr p"
          using "1.prems"(2) False not_goal unseen
          by (subst (asm) a_star_loop.simps)
             (auto simp: Let_def e_def [symmetric] rest_def [symmetric] split: sum.splits)
        have "\<forall>e \<in> set open2. entry_path e \<noteq> [] \<and> set (tl (entry_path e)) \<subseteq> in_bounds sz"
          using open2 e_ok rest_ok by (rule push_neighbors_paths)
        then show ?thesis
          using "1.IH"(2) [OF False e_def rest_def not_goal unseen open2 _ res] by simp
      qed
    qed
  qed
qed

lemma a_star_in_bounds:
  assumes "a_star s start goal = Inr p"
  shows "set p \<subseteq> in_bounds (size_env (env s))"
proof -
  have "\<forall>e \<in> set (heappush [] (of_int (0 + heuristic start goal), 0, start, [start])).
          entry_path e \<noteq> [] \<and> set (tl (entry_path e)) \<subseteq> in_bounds (size_env (env s))"
    by (simp add: heappush_def entry_path_def)
  then show ?thesis
    using assms [unfolded a_star_def] by (rule a_star_loop_in_bounds)
qed

lemma a_star_path_wf:
  assumes "wf_agent s"
  shows "\<exists>p. a_star s start goal = Inr p \<and> wf_agent (s\<lparr>path := p\<rparr>)"
proof -
  obtain p where p: "a_star s start goal = Inr p"
    using a_star_total [of s start goal] assms by (auto simp: wf_agent_def)
  then show ?thesis
    using a_star_in_bounds [OF p] assms by (simp add: wf_agent_def)
qed

lemma follow_path_wf:
  assumes "wf_agent s" and "path s \<noteq> []"
  shows "wf_agent (follow_path s)"
proof -
  obtain c cs where "path s = c # cs"
    using assms(2) by (cases "path s") auto
  then have "hd (path s) \<in> in_bounds (size_env (env s))"
    "set (tl (path s)) \<subseteq> in_bounds (size_env (env s))"
    using assms(1) by (simp_all add: wf_agent_def)
  then show ?thesis
    using assms(1) by (simp add: wf_agent_def follow_path_def)
qed

lemma random_step_wf:
  assumes "wf_agent s"
  shows "\<exists>s1. random_step k s = Inr s1 \<and> wf_agent s1"
proof -
  obtain dx dy where d: "[(0, 1), (0, - 1), (1, 0), (- 1, 0)] ! (k mod 4) = (dx :: int, dy :: int)"
    by (cases "[(0, 1), (0, - 1), (1, 0), (- 1, 0)] ! (k mod 4) :: int \<times> int") blast
  let ?sz = "size_env (env s)"
  show ?thesis
  proof (cases "0 \<le> pos_x s + dx \<and> pos_x s + dx < ?sz \<and> 0 \<le> pos_y s + dy \<and> pos_y s + dy < ?sz")
    case True
    then have "get_cell (grid (env s)) (pos_y s + dy) (pos_x s + dx) =
        Inr (grid (env s) ! nat (pos_y s + dy) ! nat (pos_x s + dx))"
      using assms by (intro get_cell_wf [of ?sz]) (simp_all add: wf_agent_def)
    then show ?thesis
      using True assms by (simp add: random_step_def d wf_agent_def in_bounds_iff Let_def)
  next
    case False
    then have "random_step k s = Inr s"
      by (auto simp: random_step_def d)
    with assms show ?thesis by simp
  qed
qed

lemma scan_dirty_total:
  assumes "wf_grid sz g" and "set yxs \<subseteq> {0..<sz} \<times> {0..<sz}"
  shows "\<exists>dirty. scan_dirty g yxs = Inr dirty"
  using assms(2)
proof (induction yxs)
  case Nil
  then show ?case by simp
next
  case (Cons yx yxs)
  obtain y x where [simp]: "yx = (y, x)"
    by (cases yx) blast
  have "get_cell g y x = Inr (g ! nat y ! nat x)"
    using assms(1) Cons.prems by (intro get_cell_wf [of sz]) simp_all
  then show ?case
    using Cons by auto
qed

lemma get_dirty_cells_total:
  assumes "wf_grid (size_env e) (grid e)"
  shows "\<exists>dirty. get_dirty_cells e = Inr dirty"
  unfolding get_dirty_cells_def using assms
  by (rule scan_dirty_total) auto

lemma astar_step_wf:
  assumes "wf_agent s"
  shows "\<exists>s1. astar_step s = Inr s1 \<and> wf_agent s1"
proof -
  have "\<exists>s0. (if path s = [] then
              (case get_dirty_cells (env s) of
                 Inl e \<Rightarrow> Inl e
               | Inr dirty_cells \<Rightarrow>
                   if dirty_cells \<noteq> [] then
                     (case a_star s (pos_x s, pos_y s) (get_nearest_dirty s dirty_cells) of
                        Inl e \<Rightarrow> Inl e
                      | Inr p \<Rightarrow> Inr (s\<lparr>path := p\<rparr>))
                   else Inr s)
            else Inr s) = Inr s0 \<and> wf_agent s0"
  proof (cases "path s = []")
    case False
    with assms show ?thesis by simp
  next
    case True
    obtain dirty where dirty: "get_dirty_cells (env s) = Inr dirty"
      using get_dirty_cells_total assms by (auto simp: wf_agent_def)
    obtain p where "a_star s (pos_x s, pos_y s) (get_nearest_dirty s dirty) = Inr p"
      "wf_agent (s\<lparr>path := p\<rparr>)"
      using a_star_path_wf [OF assms] by blast
    then show ?thesis
      using True dirty assms by simp
  qed
  then obtain s0 where s0: "(if path s = [] then
              (case get_dirty_cells (env s) of
                 Inl e \<Rightarrow> Inl e
               | Inr dirty_cells \<Rightarrow>
                   if dirty_cells \<noteq> [] then
                     (case a_star s (pos_x s, pos_y s) (get_nearest_dirty s dirty_cells) of
                        Inl e \<Rightarrow> Inl e
                      | Inr p \<Rightarrow> Inr (s\<lparr>path := p\<rparr>))
                   else Inr s)
            else Inr s) = Inr s0" and wf0: "wf_agent s0"
    by blast
  show ?thesis
    unfolding astar_step_def s0 using wf0 follow_path_wf by simp
qed

lemma optimized_step_wf:
  assumes "wf_agent s"
  shows "\<exists>s1. optimized_step s = Inr s1 \<and> wf_agent s1"
proof (cases "current (battery s) < 30")
  case False
  then show ?thesis
    using astar_step_wf [OF assms] by (simp add: optimized_step_def)
next
  case True
  obtain s1 where s1: "optimized_step s = Inr s1"
    using optimized_step_total True assms by (auto simp: wf_agent_def)
  note shape = conserve_shape [OF True s1]
  then have eq: "s1 = s\<lparr>path := path s1\<rparr>"
    by blast
  have "set (path s1) \<subseteq> in_bounds (size_env (env s))"
  proof (cases "path s1 = path s")
    case True
    with assms show ?thesis by (simp add: wf_agent_def)
  next
    case False
    with shape obtain d where "a_star s (pos_x s, pos_y s) d = Inr (path s1)"
      by blast
    then show ?thesis
      by (rule a_star_in_bounds)
  qed
  then have "wf_agent (s\<lparr>path := path s1\<rparr>)"
    using assms by (simp add: wf_agent_def)
  with eq have "wf_agent s1"
    by simp
  with s1 show ?thesis by blast
qed

lemma handle_low_battery_wf:
  assumes "wf_agent s"
  shows "\<exists>s1. handle_low_battery s = Inr s1 \<and> wf_agent s1"
proof (cases "(pos_x s, pos_y s) = charger_pos s")
  case True
  then show ?thesis
    using assms by (simp add: handle_low_battery_def wf_agent_def Let_def)
next
  case False
  have "\<exists>s0. (if path s = [] \<or> last (path s) \<noteq> charger_pos s then
                 (case a_star s (pos_x s, pos_y s) (charger_pos s) of
                    Inl e \<Rightarrow> Inl e
                  | Inr p \<Rightarrow> Inr (s\<lparr>path := p\<rparr>))
               else Inr s) = Inr s0 \<and> wf_agent s0"
    using a_star_path_wf [OF assms, of "(pos_x s, pos_y s)" "charger_pos s"] assms by auto
  then obtain s0 where s0: "(if path s = [] \<or> last (path s) \<noteq> charger_pos s then
                 (case a_star s (pos_x s, pos_y s) (charger_pos s) of
                    Inl e \<Rightarrow> Inl e
                  | Inr p \<Rightarrow> Inr (s\<lparr>path := p\<rparr>))
               else Inr s) = Inr s0" and wf0: "wf_agent s0"
    by blast
  show ?thesis
    unfolding handle_low_battery_def s0 using False wf0 follow_path_wf by simp
qed

lemma execute_strategy_wf:
  assumes "wf_agent s"
  shows "\<exists>s1. execute_strategy k s = Inr s1 \<and> wf_agent s1"
  using assms random_step_wf astar_step_wf optimized_step_wf
  by (simp add: execute_strategy_def)

lemma clean_wf:
  assumes "wf_agent s"
  shows "\<exists>s'. clean s = Inr s' \<and> wf_agent s'"
proof -
  let ?sz = "size_env (env s)"
  have wf: "wf_grid ?sz (grid (env s))"
    and p: "0 \<le> pos_x s" "pos_x s < ?sz" "0 \<le> pos_y s" "pos_y s < ?sz"
    using assms by (simp_all add: wf_agent_def in_bounds_iff)
  obtain s' where s': "clean s = Inr s'"
    using clean_total get_cell_wf [OF wf p] by blast
  have "size_env (env s') = ?sz" "wf_grid (size_env (env s')) (grid (env s'))"
    using clean_keeps_chargers [OF assms s' p] by blast+
  moreover have "pos_x s' = pos_x s" "pos_y s' = pos_y s" "path s' = path s"
    using clean_effect [OF s'] by blast+
  ultimately have "wf_agent s'"
    using assms unfolding wf_agent_def by metis
  with s' show ?thesis by blast
qed

lemma step_wf:
  assumes "wf_agent s"
  shows "\<exists>s'. step k s = Inr s' \<and> wf_agent s'"
proof (cases "needs_charging 20 (battery s) \<and> strategy s \<noteq> ''random''")
  case True
  then show ?thesis
    using handle_low_battery_wf [OF assms] by (simp add: step_def)
next
  case False
  obtain s1 where s1: "execute_strategy k s = Inr s1" "wf_agent s1"
    using execute_strategy_wf [OF assms] by blast
  have "wf_agent (s1\<lparr>metrics := record_step (pos_x s1, pos_y s1) (current (battery s1))
                                    ''move'' (strategy s1) (metrics s1)\<rparr>)"
    using s1(2) by (simp add: wf_agent_def)
  from clean_wf [OF this] obtain s' where
    "clean (s1\<lparr>metrics := record_step (pos_x s1, pos_y s1) (current (battery s1))
                                    ''move'' (strategy s1) (metrics s1)\<rparr>) = Inr s'"
    "wf_agent s'"
    by blast
  then show ?thesis
    using False s1(1) by (auto simp: step_def)
qed

lemma handle_low_battery_frame:
  assumes "handle_low_battery s = Inr s1"
  shows "env s1 = env s"
  using assms
  by (auto simp: handle_low_battery_def Let_def follow_path_frame split: if_splits sum.splits)

text \<open>No step adds or removes a charger: cleaning only turns a dirty cell into a clean one.\<close>

lemma step_keeps_chargers:
  assumes "wf_agent s" and "step k s = Inr s'"
    and "0 \<le> x" "x < size_env (env s)" "0 \<le> y" "y < size_env (env s)"
  shows "size_env (env s') = size_env (env s)
       \<and> (get_cell (grid (env s')) y x = Inr 2) = (get_cell (grid (env s)) y x = Inr 2)"
proof (cases "needs_charging 20 (battery s) \<and> strategy s \<noteq> ''random''")
  case True
  then have "env s' = env s"
    using assms(2) handle_low_battery_frame by (simp add: step_def)
  then show ?thesis by simp
next
  case False
  obtain s1 where s1: "execute_strategy k s = Inr s1"
    and c: "clean (s1\<lparr>metrics := record_step (pos_x s1, pos_y s1) (current (battery s1))
                                    ''move'' (strategy s1) (metrics s1)\<rparr>) = Inr s'"
    using assms(2) False by (auto simp: step_def split: sum.splits)
  define t where "t = s1\<lparr>metrics := record_step (pos_x s1, pos_y s1) (current (battery s1))
                                    ''move'' (strategy s1) (metrics s1)\<rparr>"
  obtain s2 where "execute_strategy k s = Inr s2" "wf_agent s2"
    using execute_strategy_wf [OF assms(1)] by blast
  with s1 have "wf_agent s1"
    by simp
  then have wt: "wf_agent t"
    by (simp add: wf_agent_def t_def)
  have et: "env t = env s"
    using execute_strategy_frame [OF s1] by (simp add: t_def)
  have "clean t = Inr s'"
    using c by (simp add: t_def)
  from clean_keeps_chargers [OF wt this, of x y] assms(3-6) show ?thesis
    by (simp add: et)
qed

section \<open>Battery: the claims\<close>

text \<open>
  C2.  A battery created with positive capacity keeps \<open>0 \<le> current \<le> capacity\<close> after every
  call of every finite sequence of \<open>consume\<close> and \<open>charge\<close> calls whose amounts are
  non-negative: the explicit amount of a \<open>consume\<close>, the drain rate where \<open>consume\<close> is called
  without an amount, the charge rate of a \<open>charge\<close>.  "After every call" is every prefix
  \<open>take n cs\<close> of the sequence; the capacity is the one the battery was created with.
\<close>

theorem battery_level_invariant:
  assumes "0 < cap"
    and "Battery_init cap dr cr = Inr b"
    and "\<forall>c \<in> set cs. 0 \<le> call_amount b c"
  shows "\<forall>n \<le> length cs.
           0 \<le> current (calls (take n cs) b)
         \<and> current (calls (take n cs) b) \<le> capacity (calls (take n cs) b)
         \<and> capacity (calls (take n cs) b) = cap"
proof (intro allI impI)
  fix n
  assume "n \<le> length cs"
  have b: "level_ok b" "capacity b = cap"
    using assms(1,2) by (auto simp: Battery_init_def level_ok_def)
  have "\<forall>c \<in> set (take n cs). 0 \<le> call_amount b c"
    using assms(3) by (meson in_set_takeD)
  then have "level_ok (calls (take n cs) b)"
    using b(1) by (rule calls_level_ok [rotated])
  then show "0 \<le> current (calls (take n cs) b)
         \<and> current (calls (take n cs) b) \<le> capacity (calls (take n cs) b)
         \<and> capacity (calls (take n cs) b) = cap"
    using b(2) by (simp add: level_ok_def calls_capacity)
qed

theorem battery_level_invariant_witness:
  "\<exists>b. Battery_init 10 1 5 = Inr b
     \<and> current (calls (take 1 [Consume (Some 30), Charge, Consume None, Charge, Charge]) b) = 0
     \<and> current (calls (take 2 [Consume (Some 30), Charge, Consume None, Charge, Charge]) b) = 5
     \<and> current (calls (take 3 [Consume (Some 30), Charge, Consume None, Charge, Charge]) b) = 4
     \<and> current (calls (take 5 [Consume (Some 30), Charge, Consume None, Charge, Charge]) b) = 10
     \<and> 0 \<le> current (calls (take 5 [Consume (Some 30), Charge, Consume None, Charge, Charge]) b)
     \<and> current (calls (take 5 [Consume (Some 30), Charge, Consume None, Charge, Charge]) b) \<le> 10"
proof -
  define b where "b = \<lparr>capacity = 10, current = 10, drain_rate = 1, charge_rate = 5,
          total_consumed = 0, charge_cycles = (0::int)\<rparr>"
  define cs where "cs = [Consume (Some 30), Charge, Consume None, Charge, Charge]"
  have i: "Battery_init 10 1 5 = Inr b"
    by (simp add: Battery_init_def b_def)
  have a: "\<forall>c \<in> set cs. 0 \<le> call_amount b c"
    by (simp add: cs_def b_def)
  have inv: "\<forall>n \<le> length cs.
           0 \<le> current (calls (take n cs) b)
         \<and> current (calls (take n cs) b) \<le> capacity (calls (take n cs) b)
         \<and> capacity (calls (take n cs) b) = 10"
    by (rule battery_level_invariant [OF _ i a]) simp
  have "5 \<le> length cs"
    by (simp add: cs_def)
  with inv have "0 \<le> current (calls (take 5 cs) b) \<and> current (calls (take 5 cs) b) \<le> 10"
    by fastforce
  moreover have "current (calls (take 1 cs) b) = 0" "current (calls (take 2 cs) b) = 5"
    "current (calls (take 3 cs) b) = 4" "current (calls (take 5 cs) b) = 10"
    by (simp_all add: cs_def b_def consume_def charge_def Let_def)
  ultimately show ?thesis
    using i unfolding cs_def by blast
qed

text \<open>
  C5.  \<open>charge()\<close> sets \<open>current\<close> to \<open>current + charge_rate\<close> capped at \<open>capacity\<close>, and adds
  exactly 1 to \<open>charge_cycles\<close> if the level was strictly below capacity before the call
  and equals capacity after it, and nothing otherwise.  In particular, from
  \<open>current = capacity - 1\<close> with \<open>charge_rate = 5\<close> one call adds exactly 1 to
  \<open>charge_cycles\<close>, and any number of further calls leaves \<open>charge_cycles\<close> as it is.
\<close>

theorem charge_cycle_counting:
  "current (charge b) = min (capacity b) (current b + charge_rate b)
   \<and> charge_cycles (charge b) =
       charge_cycles b + (if current b < capacity b \<and> current (charge b) = capacity b then 1 else 0)
   \<and> (current b = capacity b - 1 \<and> charge_rate b = 5 \<longrightarrow>
        charge_cycles (charge b) = charge_cycles b + 1
      \<and> current (charge b) = capacity b
      \<and> charge_cycles (calls (replicate n Charge) (charge b)) = charge_cycles b + 1)"
proof -
  have full: "charge_rate c = 5 \<Longrightarrow> current c = capacity c \<Longrightarrow>
      charge_cycles (calls (replicate n Charge) c) = charge_cycles c" for c
  proof (induction n arbitrary: c)
    case 0
    then show ?case by simp
  next
    case (Suc n)
    have "charge c = c"
      using Suc.prems by (simp add: charge_def Let_def min_def)
    then show ?case
      using Suc by simp
  qed
  show ?thesis
    using full [of "charge b"]
    by (auto simp: charge_def Let_def min_def)
qed

theorem charge_cycle_counting_witness:
  "charge_cycles (charge \<lparr>capacity = 100, current = 99, drain_rate = 1, charge_rate = 5,
        total_consumed = 1, charge_cycles = 0\<rparr>) = 1
   \<and> charge_cycles (calls (replicate 3 Charge)
       (charge \<lparr>capacity = 100, current = 99, drain_rate = 1, charge_rate = 5,
          total_consumed = 1, charge_cycles = 0\<rparr>)) = 1"
  using charge_cycle_counting [of "\<lparr>capacity = 100, current = 99, drain_rate = 1,
        charge_rate = 5, total_consumed = 1, charge_cycles = 0\<rparr>" 3]
  by simp

text \<open>
  C6.  \<open>consume(amount)\<close> sets \<open>current\<close> to \<open>current - amount\<close> floored at 0, adds the whole
  requested amount to \<open>total_consumed\<close> whatever the flooring, and returns whether
  \<open>current > 0\<close> after the update.  After \<open>n\<close> calls \<open>consume(a)\<close> on a fresh battery
  \<open>total_consumed\<close> is \<open>n * a\<close>.
\<close>

theorem consume_contract:
  "current (snd (consume (Some a) b)) = max 0 (current b - a)
   \<and> total_consumed (snd (consume (Some a) b)) = total_consumed b + a
   \<and> fst (consume (Some a) b) = (current (snd (consume (Some a) b)) > 0)
   \<and> consume None b = consume (Some (drain_rate b)) b
   \<and> (\<forall>fresh. Battery_init cap dr cr = Inr fresh \<longrightarrow>
        total_consumed (calls (replicate n (Consume (Some a))) fresh) = int n * a)"
  by (auto simp: consume_def Let_def Battery_init_def calls_replicate_total)

theorem consume_contract_witness:
  "\<exists>fresh. Battery_init 5 1 5 = Inr fresh
     \<and> total_consumed (calls (replicate 4 (Consume (Some 3))) fresh) = 12
     \<and> current (calls (replicate 4 (Consume (Some 3))) fresh) = 0"
proof -
  define fresh where "fresh = \<lparr>capacity = 5, current = 5, drain_rate = 1, charge_rate = 5,
          total_consumed = 0, charge_cycles = (0::int)\<rparr>"
  have i: "Battery_init 5 1 5 = Inr fresh"
    by (simp add: Battery_init_def fresh_def)
  have "total_consumed (calls (replicate 4 (Consume (Some 3))) fresh) = 12"
    using consume_contract [of 3 fresh 5 1 5 4] i by simp
  moreover have "current (calls (replicate 4 (Consume (Some 3))) fresh) = 0"
    by (simp add: fresh_def consume_def Let_def eval_nat_numeral)
  ultimately show ?thesis
    using i by blast
qed

section \<open>Path search: the claims\<close>

lemma a_star_loop_open_5:
  "a_star_loop 5 (replicate 5 (replicate 5 0)) 1 (4, 4)
     (heappush [] (of_int (0 + heuristic (0, 0) (4, 4)), 0, (0, 0), [(0, 0)])) {} =
   Inr [(0, 1), (0, 2), (0, 3), (0, 4), (1, 4), (2, 4), (3, 4), (4, 4)]"
  by code_simp

text \<open>
  C3.  With \<open>epsilon = 1\<close> on a 5 by 5 grid without obstacles (whatever its clean, dirty
  and charger cells), \<open>a_star\<close> from \<open>(0, 0)\<close> to \<open>(4, 4)\<close> returns a sequence of 8
  cells, the Manhattan distance of the two cells; the sequence does not hold the start
  cell and ends at the goal cell.  It is the path down the first column and along the
  last row.
\<close>

theorem a_star_open_grid:
  assumes "size_env (env s) = 5"
    and "wf_grid 5 (grid (env s))"
    and "obstacle_free (grid (env s))"
    and "epsilon s = 1"
  shows "\<exists>p. a_star s (0, 0) (4, 4) = Inr p
           \<and> int (length p) = heuristic (0, 0) (4, 4) \<and> length p = 8
           \<and> (0, 0) \<notin> set p \<and> last p = (4, 4)
           \<and> p = [(0, 1), (0, 2), (0, 3), (0, 4), (1, 4), (2, 4), (3, 4), (4, 4)]"
proof -
  have "a_star s (0, 0) (4, 4) =
      Inr [(0, 1), (0, 2), (0, 3), (0, 4), (1, 4), (2, 4), (3, 4), (4, 4)]"
    unfolding a_star_def assms(1,4)
    using a_star_loop_same_obstacles [OF obstacle_free_same [OF assms(2,3)]] a_star_loop_open_5
    by simp
  then show ?thesis
    by (simp add: heuristic_def)
qed

theorem a_star_open_grid_witness:
  "a_star (sample_agent 100 ''astar''
            \<lparr>env := \<lparr>size_env = 5, grid = [[0, 1, 0, 0, 0],
                                          [0, 0, 0, 1, 0],
                                          [1, 0, 0, 0, 0],
                                          [0, 0, 0, 0, 1],
                                          [0, 0, 1, 0, 2]]\<rparr>\<rparr>) (0, 0) (4, 4) =
     Inr [(0, 1), (0, 2), (0, 3), (0, 4), (1, 4), (2, 4), (3, 4), (4, 4)]
   \<and> length [(0, 1), (0, 2), (0, 3), (0, 4), (1, 4), (2, 4), (3, 4), (4 :: int, 4 :: int)] = 8"
  using a_star_open_grid [of "sample_agent 100 ''astar''
            \<lparr>env := \<lparr>size_env = 5, grid = [[0, 1, 0, 0, 0],
                                          [0, 0, 0, 1, 0],
                                          [1, 0, 0, 0, 0],
                                          [0, 0, 0, 0, 1],
                                          [0, 0, 1, 0, 2]]\<rparr>\<rparr>"]
  by (simp add: sample_agent_def wf_grid_def obstacle_free_def)

text \<open>
  C4.  Where start and goal are the same cell \<open>a_star\<close> returns the empty sequence, on
  every grid.  Where the goal is not reachable from the start by moves in the four
  directions into cells within the bounds that are not obstacles, \<open>a_star\<close> returns the
  empty sequence as well, on every grid of \<open>size\<close> rows of \<open>size\<close> cells.  Neither case
  raises an error: the result is \<open>Inr []\<close>.
\<close>

theorem a_star_empty_sequence:
  "(start = goal \<longrightarrow> a_star s start goal = Inr [])
   \<and> (wf_grid (size_env (env s)) (grid (env s))
        \<and> \<not> reachable (size_env (env s)) (grid (env s)) start goal \<longrightarrow>
      a_star s start goal = Inr [])"
  using a_star_same_cell a_star_unreachable by blast

theorem a_star_empty_sequence_witness:
  "a_star (sample_agent 100 ''astar''\<lparr>env := \<lparr>size_env = 5, grid = walled_grid\<rparr>\<rparr>) (1, 1) (1, 1) = Inr []
   \<and> a_star (sample_agent 100 ''astar''\<lparr>env := \<lparr>size_env = 5, grid = walled_grid\<rparr>\<rparr>) (0, 0) (3, 3) = Inr []
   \<and> get_cell walled_grid 3 3 = Inr 1"
proof -
  define w where "w = sample_agent 100 ''astar''\<lparr>env := \<lparr>size_env = 5, grid = walled_grid\<rparr>\<rparr>"
  have wf: "wf_grid (size_env (env w)) (grid (env w))"
    by (simp add: w_def wf_grid_def walled_grid_def)
  have "\<forall>d \<in> set directions.
           (fst (3, 3) - fst d, snd (3, 3) - snd d) \<noteq> (0, 0)
         \<and> \<not> passable 5 walled_grid (fst (3, 3) - fst d, snd (3, 3) - snd d)"
    by (simp add: directions_def passable_def get_cell_def py_index_def walled_grid_def)
  then have "\<not> reachable 5 walled_grid (0, 0) (3, 3)"
    by (intro blocked_unreachable) simp_all
  then have un: "\<not> reachable (size_env (env w)) (grid (env w)) (0, 0) (3, 3)"
    by (simp add: w_def)
  have "a_star w (1, 1) (1, 1) = Inr []" "a_star w (0, 0) (3, 3) = Inr []"
    using a_star_empty_sequence [of "(1, 1)" "(1, 1)" w]
      a_star_empty_sequence [of "(0, 0)" "(3, 3)" w] wf un
    by blast+
  moreover have "get_cell walled_grid 3 3 = Inr 1"
    by (simp add: get_cell_def py_index_def walled_grid_def)
  ultimately show ?thesis
    unfolding w_def by blast
qed

section \<open>Environment and construction: the claims\<close>

text \<open>
  C7.  The claim fails on the code for \<open>size = 3\<close>.  The constructor writes the charger to
  \<open>grid[size-1][size-1]\<close> and then the example obstacle to \<open>grid[2][2]\<close>, the same cell:
  \<open>Environment(3)\<close> is constructed without an error, its bottom-right cell is an obstacle
  and no cell of it is a charger, whatever the dirt drawn.  (From size 4 on the
  constructor leaves exactly the bottom-right cell a charger, and no step changes that:
  \<open>Environment_init_from_4\<close>, \<open>step_keeps_chargers\<close>.)
\<close>

theorem environment_size_3_has_no_charger:
  "\<exists>e. Environment_init 3 dirt_prob rnd = Inr e
      \<and> size_env e = 3
      \<and> length (grid e) = 3 \<and> map length (grid e) = [3, 3, 3]
      \<and> get_cell (grid e) (size_env e - 1) (size_env e - 1) = Inr (- 1)
      \<and> charger_cells e = []"
proof -
  define c where "c y x = (if rnd y x > dirt_prob then 0 else 1 :: int)" for y x
  have c: "c y x \<noteq> 2" for y x
    by (simp add: c_def)
  have u: "[0..<3] = [0, 1, 2]" "[0..(2::int)] = [0, 1, 2]"
    by (simp_all add: upt_rec upto_rec1)
  have "Environment_init 3 dirt_prob rnd =
      Inr \<lparr>size_env = 3,
           grid = [[0, c 0 1, c 0 2], [c 1 0, c 1 1, c 1 2], [c 2 0, c 2 1, - 1]]\<rparr>"
    unfolding Environment_init_def c_def [symmetric]
    by (simp add: u set_cell_def py_index_def Let_def)
  moreover have "charger_cells \<lparr>size_env = 3,
           grid = [[0, c 0 1, c 0 2], [c 1 0, c 1 1, c 1 2], [c 2 0, c 2 1, - 1]]\<rparr> = []"
    by (simp add: charger_cells_def u get_cell_def py_index_def c)
  moreover have "get_cell [[0, c 0 1, c 0 2], [c 1 0, c 1 1, c 1 2], [c 2 0, c 2 1, - 1]] 2 2
      = Inr (- 1)"
    by (simp add: get_cell_def py_index_def)
  ultimately show ?thesis
    by simp
qed

text \<open>
  C8, as amended.  No configuration is rejected at construction time: \<open>Battery\<close> returns
  normally for every capacity, non-positive ones too, with \<open>capacity\<close> and \<open>current\<close> set
  to the value given.  Constructing an agent does not fail either; it stores
  \<open>max(1.0, epsilon)\<close>, so that an \<open>epsilon\<close> below 1 is stored as 1 and the agent's epsilon
  after construction is at least 1.
\<close>

theorem construction_never_rejects:
  "Battery_init cap dr cr =
     Inr \<lparr>capacity = cap, current = cap, drain_rate = dr, charge_rate = cr,
          total_consumed = 0, charge_cycles = 0\<rparr>
   \<and> (\<exists>s. VaccumCleaner_init e strat eps = Inr s \<and> epsilon s = max 1 eps \<and> 1 \<le> epsilon s
          \<and> (eps < 1 \<longrightarrow> epsilon s = 1))"
  by (simp add: Battery_init_def VaccumCleaner_init_def)

theorem construction_never_rejects_witness:
  "Battery_init (- 3) 1 5 =
     Inr \<lparr>capacity = - 3, current = - 3, drain_rate = 1, charge_rate = 5,
          total_consumed = 0, charge_cycles = 0\<rparr>
   \<and> (\<exists>s. VaccumCleaner_init \<lparr>size_env = 5, grid = sample_grid\<rparr> ''astar'' (1 / 2) = Inr s
          \<and> epsilon s = 1)"
  using construction_never_rejects [of "- 3" 1 5 "\<lparr>size_env = 5, grid = sample_grid\<rparr>" "''astar''" "1 / 2"]
  by auto

text \<open>
  The claim as stated (a battery of non-positive capacity is rejected at construction)
  fails for the capacities 0 and -7.
\<close>

theorem battery_nonpositive_capacity_accepted:
  "Battery_init 0 1 5 =
     Inr \<lparr>capacity = 0, current = 0, drain_rate = 1, charge_rate = 5,
          total_consumed = 0, charge_cycles = 0\<rparr>
   \<and> Battery_init (- 7) 1 5 =
     Inr \<lparr>capacity = - 7, current = - 7, drain_rate = 1, charge_rate = 5,
          total_consumed = 0, charge_cycles = 0\<rparr>
   \<and> Battery_init 0 1 5 \<noteq> Inl ConfigurationError"
  by (simp add: Battery_init_def)

section \<open>The step: the claims\<close>

text \<open>
  C9.  The claim fails on the code in the navigate-to-charger branch.  The sample agent with
  strategy \<open>astar\<close> and battery level 20, not on the charger cell, takes a step: it moves
  from \<open>(2, 4)\<close> to \<open>(3, 4)\<close> and drains the battery to 19, and \<open>step\<close> returns before
  \<open>record_step\<close>: the recorder's state is what it was, with no step counted and no
  decision recorded.
\<close>

theorem navigate_to_charger_emits_no_event:
  "(case step 0 (sample_agent 20 ''astar'') of
      Inl e \<Rightarrow> False
    | Inr s' \<Rightarrow>
        (pos_x s', pos_y s') = (3, 4)
      \<and> current (battery s') = 19
      \<and> metrics s' = metrics (sample_agent 20 ''astar'')
      \<and> steps_taken (metrics s') = 0
      \<and> decisions_made (metrics s') = [])"
  by code_simp

text \<open>
  C10.  In the \<open>optimized\<close> strategy, on a grid of \<open>size\<close> rows of \<open>size\<close> cells with the
  agent within the bounds, where the low-battery branch is not taken (\<open>current > 20\<close>) and
  \<open>current < 30\<close>: the step returns, and its movement phase changes nothing but \<open>path\<close>.
  The position and the battery after the step are those before it, and the path is
  either the one before the step or the result of \<open>a_star\<close> towards the first of the
  nearby dirty cells (radius 2, sorted by Manhattan distance); no cell is popped.
\<close>

theorem optimized_conservation:
  assumes "strategy s = ''optimized''"
    and "\<not> needs_charging 20 (battery s)"
    and "current (battery s) < 30"
    and "wf_grid (size_env (env s)) (grid (env s))"
    and "0 \<le> pos_x s" "pos_x s < size_env (env s)" "0 \<le> pos_y s" "pos_y s < size_env (env s)"
  shows "\<exists>s1 s'. execute_strategy k s = Inr s1 \<and> step k s = Inr s'
           \<and> s1 = s\<lparr>path := path s1\<rparr>
           \<and> pos_x s' = pos_x s \<and> pos_y s' = pos_y s \<and> battery s' = battery s
           \<and> path s' = path s1
           \<and> (path s1 = path s
              \<or> (\<exists>d ds. get_nearby_dirt 2 s = Inr (d # ds)
                    \<and> a_star s (pos_x s, pos_y s) d = Inr (path s1)))"
proof -
  obtain s1 where o: "optimized_step s = Inr s1"
    using optimized_step_total [OF assms(4,3)] by blast
  then have s1: "execute_strategy k s = Inr s1"
    using assms(1) by (simp add: execute_strategy_def)
  note shape = conserve_shape [OF assms(3) o]
  then obtain p where p: "s1 = s\<lparr>path := p\<rparr>"
    by blast
  define t where "t = s1\<lparr>metrics := record_step (pos_x s1, pos_y s1) (current (battery s1))
                                    ''move'' (strategy s1) (metrics s1)\<rparr>"
  have t: "pos_x t = pos_x s" "pos_y t = pos_y s" "env t = env s" "battery t = battery s"
    "path t = path s1"
    by (simp_all add: t_def p)
  have "get_cell (grid (env t)) (pos_y t) (pos_x t) =
      Inr (grid (env s) ! nat (pos_y s) ! nat (pos_x s))"
    unfolding t using assms(4-8) by (rule get_cell_wf)
  then obtain s' where c: "clean t = Inr s'"
    using clean_total by blast
  have "step k s = Inr s'"
    using assms(2) s1 c by (simp add: step_def t_def)
  moreover have "pos_x s' = pos_x s \<and> pos_y s' = pos_y s \<and> battery s' = battery s
      \<and> path s' = path s1"
    using clean_effect [OF c] by (simp add: t)
  ultimately show ?thesis
    using s1 shape by blast
qed

theorem optimized_conservation_witness:
  "(\<exists>s'. step 0 (sample_agent 25 ''optimized'') = Inr s'
        \<and> pos_x s' = 2 \<and> pos_y s' = 4 \<and> current (battery s') = 25)
   \<and> step 0 (sample_agent 25 ''optimized'') =
     Inr (sample_agent 25 ''optimized''
           \<lparr>visited := {(2, 4)}, path := [(3, 4)],
            metrics := record_step (2, 4) 25 ''move'' ''optimized'' PerformanceMetrics_init\<rparr>)
   \<and> get_nearby_dirt 2 (sample_agent 25 ''optimized'') = Inr [(3, 4), (1, 2)]"
proof -
  have st: "step 0 (sample_agent 25 ''optimized'') =
     Inr (sample_agent 25 ''optimized''
           \<lparr>visited := {(2, 4)}, path := [(3, 4)],
            metrics := record_step (2, 4) 25 ''move'' ''optimized'' PerformanceMetrics_init\<rparr>)"
    by code_simp
  have near: "get_nearby_dirt 2 (sample_agent 25 ''optimized'') = Inr [(3, 4), (1, 2)]"
    by code_simp
  have "\<exists>s'. step 0 (sample_agent 25 ''optimized'') = Inr s'
        \<and> pos_x s' = 2 \<and> pos_y s' = 4 \<and> current (battery s') = 25"
    using optimized_conservation [of "sample_agent 25 ''optimized''" 0]
    by (auto simp: sample_agent_def needs_charging_def wf_grid_def sample_grid_def)
  with st near show ?thesis
    by blast
qed

lemma step_clean_effect:
  assumes "\<not> (needs_charging 20 (battery s) \<and> strategy s \<noteq> ''random'')"
    and "step k s = Inr s'"
  shows "\<exists>s1. execute_strategy k s = Inr s1
           \<and> pos_x s' = pos_x s1 \<and> pos_y s' = pos_y s1
           \<and> visited s' = insert (pos_x s', pos_y s') (visited s)
           \<and> (if get_cell (grid (env s)) (pos_y s') (pos_x s') = Inr 1
              then set_cell (grid (env s)) (pos_y s') (pos_x s') 0 = Inr (grid (env s'))
                 \<and> get_cell (grid (env s')) (pos_y s') (pos_x s') = Inr 0
                 \<and> cleaned s' = cleaned s + 1
              else grid (env s') = grid (env s) \<and> cleaned s' = cleaned s)"
proof -
  obtain s1 where s1: "execute_strategy k s = Inr s1"
    and c: "clean (s1\<lparr>metrics := record_step (pos_x s1, pos_y s1) (current (battery s1))
                                    ''move'' (strategy s1) (metrics s1)\<rparr>) = Inr s'"
    using assms by (auto simp: step_def split: sum.splits)
  define t where "t = s1\<lparr>metrics := record_step (pos_x s1, pos_y s1) (current (battery s1))
                                    ''move'' (strategy s1) (metrics s1)\<rparr>"
  have t: "pos_x t = pos_x s1" "pos_y t = pos_y s1" "env t = env s" "cleaned t = cleaned s"
    "visited t = visited s"
    using execute_strategy_frame [OF s1] by (simp_all add: t_def)
  have c': "clean t = Inr s'"
    using c by (simp add: t_def)
  have p: "pos_x s1 = pos_x s'" "pos_y s1 = pos_y s'"
    using clean_effect [OF c'] t by simp_all
  have "pos_x s' = pos_x s1 \<and> pos_y s' = pos_y s1
       \<and> visited s' = insert (pos_x s', pos_y s') (visited s)
       \<and> (if get_cell (grid (env s)) (pos_y s') (pos_x s') = Inr 1
          then set_cell (grid (env s)) (pos_y s') (pos_x s') 0 = Inr (grid (env s'))
             \<and> get_cell (grid (env s')) (pos_y s') (pos_x s') = Inr 0
             \<and> cleaned s' = cleaned s + 1
          else grid (env s') = grid (env s) \<and> cleaned s' = cleaned s)"
    using clean_effect [OF c'] unfolding t p by blast
  with s1 show ?thesis
    by blast
qed


text \<open>
  C1, as amended.  In every step whose low-battery branch is not taken (the strategy is
  \<open>random\<close>, or \<open>current > 20\<close>) the agent cleans the cell it stands on after the movement
  phase: if that cell is dirty (1) it becomes clean (0) and \<open>cleaned\<close> grows by 1,
  otherwise the grid and \<open>cleaned\<close> stay as they are; in both cases the position is
  added to \<open>visited\<close>.  Such a step of a well-formed agent returns, with a well-formed
  agent.
\<close>

theorem step_cleans_current_cell:
  assumes "\<not> (needs_charging 20 (battery s) \<and> strategy s \<noteq> ''random'')"
  shows "(wf_agent s \<longrightarrow> (\<exists>s'. step k s = Inr s' \<and> wf_agent s'))
       \<and> (\<forall>s'. step k s = Inr s' \<longrightarrow>
            (\<exists>s1. execute_strategy k s = Inr s1
               \<and> pos_x s' = pos_x s1 \<and> pos_y s' = pos_y s1
               \<and> visited s' = insert (pos_x s', pos_y s') (visited s)
               \<and> (if get_cell (grid (env s)) (pos_y s') (pos_x s') = Inr 1
                  then set_cell (grid (env s)) (pos_y s') (pos_x s') 0 = Inr (grid (env s'))
                     \<and> get_cell (grid (env s')) (pos_y s') (pos_x s') = Inr 0
                     \<and> cleaned s' = cleaned s + 1
                  else grid (env s') = grid (env s) \<and> cleaned s' = cleaned s)))"
  using step_wf [of s k] step_clean_effect [OF assms, of k] by blast

theorem step_cleans_current_cell_witness:
  "wf_agent (sample_agent 25 ''astar'')
   \<and> step 0 (sample_agent 25 ''astar'') =
     Inr (sample_agent 24 ''astar''
           \<lparr>env := \<lparr>size_env = 5, grid = sample_grid[4 := [0, 0, 0, 0, 2]]\<rparr>,
            pos_x := 3, cleaned := 1, visited := {(3, 4)},
            metrics := record_cleaning ''astar''
               (record_step (3, 4) 24 ''move'' ''astar'' PerformanceMetrics_init)\<rparr>)
   \<and> get_cell sample_grid 4 3 = Inr 1
   \<and> get_cell (sample_grid[4 := [0, 0, 0, 0, 2]]) 4 3 = Inr 0"
proof -
  have st: "step 0 (sample_agent 25 ''astar'') =
     Inr (sample_agent 24 ''astar''
           \<lparr>env := \<lparr>size_env = 5, grid = sample_grid[4 := [0, 0, 0, 0, 2]]\<rparr>,
            pos_x := 3, cleaned := 1, visited := {(3, 4)},
            metrics := record_cleaning ''astar''
               (record_step (3, 4) 24 ''move'' ''astar'' PerformanceMetrics_init)\<rparr>)"
    by code_simp
  have wf: "wf_agent (sample_agent 25 ''astar'')"
    by (simp add: wf_agent_def wf_grid_def in_bounds_iff sample_agent_def sample_grid_def)
  have nc: "\<not> (needs_charging 20 (battery (sample_agent 25 ''astar''))
          \<and> strategy (sample_agent 25 ''astar'') \<noteq> ''random'')"
    by (simp add: needs_charging_def sample_agent_def)
  from step_cleans_current_cell [OF nc, of 0, THEN conjunct2, rule_format, OF st]
  have "get_cell sample_grid 4 3 = Inr 1
      \<and> get_cell (sample_grid[4 := [0, 0, 0, 0, 2]]) 4 3 = Inr 0"
    by (auto simp: sample_agent_def split: if_splits)
  with st wf show ?thesis by blast
qed

text \<open>
  The claim as stated (every step, the navigate-to-charger branch included) fails: the
  sample agent with battery level 20 moves onto the dirty cell \<open>(3, 4)\<close>, which stays
  dirty; \<open>cleaned\<close> stays 0 and the cell is not added to \<open>visited\<close>.
\<close>

theorem low_battery_step_skips_cleaning:
  "step 0 (sample_agent 20 ''astar'') =
     Inr (sample_agent 19 ''astar''\<lparr>pos_x := 3, path := [(4, 4)]\<rparr>)
   \<and> needs_charging 20 (battery (sample_agent 20 ''astar''))
   \<and> get_cell (grid (env (sample_agent 19 ''astar''\<lparr>pos_x := 3, path := [(4, 4)]\<rparr>))) 4 3 = Inr 1
   \<and> cleaned (sample_agent 19 ''astar''\<lparr>pos_x := 3, path := [(4, 4)]\<rparr>) = 0
   \<and> (3, 4) \<notin> visited (sample_agent 19 ''astar''\<lparr>pos_x := 3, path := [(4, 4)]\<rparr>)"
  by code_simp

end
